theory Spec2Isabelle
  imports Complex_Main "HOL-Library.Log_Nat"
begin

section \<open>JavaScript strings\<close>

text \<open>
  The route handlers \<open>POST\<close> and \<open>GET\<close> of the inventory API are embedded as HOL
  functions. A JavaScript string is modelled as a \<open>string\<close> (a list of characters);
  every separator and keyword the handlers look for is ASCII.
\<close>

text \<open>
  \<open>s.split(sep)\<close> for a one-character separator: the pieces between the separators,
  never an empty array (\<open>"".split(";")\<close> is \<open>[""]\<close>).
\<close>

fun js_split :: "char \<Rightarrow> string \<Rightarrow> string list" where
  "js_split sep [] = [[]]"
| "js_split sep (c # cs) =
     (if c = sep then [] # js_split sep cs
      else (case js_split sep cs of
              [] \<Rightarrow> [[c]]
            | w # ws \<Rightarrow> (c # w) # ws))"

text \<open>\<open>const [a, b] = xs\<close>: the element at an index, \<open>undefined\<close> (None) past the end.\<close>

fun element_at :: "'a list \<Rightarrow> nat \<Rightarrow> 'a option" where
  "element_at [] i = None"
| "element_at (x # xs) 0 = Some x"
| "element_at (x # xs) (Suc i) = element_at xs i"

text \<open>\<open>x || d\<close> on an optional string.\<close>

fun or_default :: "string option \<Rightarrow> string \<Rightarrow> string" where
  "or_default None d = d"
| "or_default (Some s) d = (if s = [] then d else s)"

section \<open>The detail filter of GET\<close>

record detail_filter =
  df_name :: string
  df_values :: "string list"

text \<open>
  The callback of \<open>.map\<close> at lines 220-223:
  \<open>const [name, values] = detail.split(":");
    return { name, values: values ? values.split(",") : [] }\<close>.
  \<open>split\<close> never returns an empty array, so \<open>name\<close> is always a string.
\<close>

definition value_segment :: "string \<Rightarrow> string option" where
  "value_segment detail = element_at (js_split CHR '':'' detail) 1"

definition name_segment :: "string \<Rightarrow> string" where
  "name_segment detail =
     (case element_at (js_split CHR '':'' detail) 0 of Some n \<Rightarrow> n | None \<Rightarrow> [])"

definition parse_detail :: "string \<Rightarrow> detail_filter" where
  "parse_detail detail =
     \<lparr> df_name = name_segment detail,
       df_values = (case value_segment detail of
                      None \<Rightarrow> []
                    | Some v \<Rightarrow> if v = [] then [] else js_split CHR '','' v) \<rparr>"

text \<open>Lines 206-225: \<open>detailsFilter\<close> from the \<open>details\<close> query parameter.\<close>

definition detailsFilter_of :: "string option \<Rightarrow> detail_filter list" where
  "detailsFilter_of detailsParam =
     (case detailsParam of
        None \<Rightarrow> []
      | Some p \<Rightarrow>
          if p = [] then []
          else filter (\<lambda>d. length (df_values d) > 0)
                 (map parse_detail (js_split CHR '';'' p)))"

section \<open>JavaScript numbers\<close>

text \<open>
  A JavaScript number is a binary64 value: \<open>NaN\<close>, an infinity, negative zero, or a
  finite value, kept as the rational it denotes. \<open>Fin 0\<close> is \<open>+0\<close> and \<open>NZero\<close>
  is \<open>-0\<close>. Every operation computes its exact result and rounds it to the nearest
  binary64 value, ties to the even significand (\<open>round64\<close>).
\<close>

datatype jsnum = NaN | PInf | NInf | NZero | Fin rat

fun finite_val :: "jsnum \<Rightarrow> rat option" where
  "finite_val NZero = Some 0"
| "finite_val (Fin r) = Some r"
| "finite_val NaN = None"
| "finite_val PInf = None"
| "finite_val NInf = None"

fun is_neg :: "jsnum \<Rightarrow> bool" where
  "is_neg NInf = True"
| "is_neg NZero = True"
| "is_neg (Fin r) = (r < 0)"
| "is_neg NaN = False"
| "is_neg PInf = False"

definition zero_of :: "bool \<Rightarrow> jsnum" where
  "zero_of neg = (if neg then NZero else Fin 0)"

definition inf_of :: "bool \<Rightarrow> jsnum" where
  "inf_of neg = (if neg then NInf else PInf)"

text \<open>The integer part of the binary logarithm of a positive rational.\<close>

definition flog2 :: "rat \<Rightarrow> int" where
  "flog2 a =
     (let k = bitlen (fst (quotient_of a)) - bitlen (snd (quotient_of a))
      in if 2 powi k \<le> a then k else k - 1)"

text \<open>The nearest integer, a tie going to the even one.\<close>

definition round_half_even :: "rat \<Rightarrow> int" where
  "round_half_even x =
     (let f = \<lfloor>x\<rfloor>; d = x - of_int f
      in if d < 1 / 2 then f
         else if 1 / 2 < d then f + 1
         else if even f then f else f + 1)"

text \<open>
  Rounding a nonzero rational to binary64: the significand has 53 bits, the least
  exponent of the last bit is \<open>-1074\<close> (subnormal numbers), a result of magnitude
  \<open>2^1024\<close> or more is an infinity, and a result that rounds to zero keeps the sign.
\<close>

definition round64 :: "rat \<Rightarrow> jsnum" where
  "round64 x =
     (let a = \<bar>x\<bar>;
          e = max (flog2 a - 52) (- 1074);
          v = of_int (round_half_even (a / 2 powi e)) * 2 powi e
      in if 2 ^ 1024 \<le> v then inf_of (x < 0)
         else if v = 0 then zero_of (x < 0)
         else Fin (if x < 0 then - v else v))"

text \<open>
  The number for an exact result \<open>r\<close>: an exact zero takes the given sign, anything
  else is rounded.
\<close>

definition fin_signed :: "bool \<Rightarrow> rat \<Rightarrow> jsnum" where
  "fin_signed neg r = (if r = 0 then zero_of neg else round64 r)"

text \<open>A count of documents as a number.\<close>

definition number_of_count :: "nat \<Rightarrow> jsnum" where
  "number_of_count n = fin_signed False (of_nat n)"

text \<open>\<open>x - y\<close>: an exact zero difference is \<open>+0\<close>, except \<open>(-0) - (+0)\<close>.\<close>

definition js_sub :: "jsnum \<Rightarrow> jsnum \<Rightarrow> jsnum" where
  "js_sub x y =
     (if x = NaN \<or> y = NaN then NaN
      else case (finite_val x, finite_val y) of
          (Some a, Some b) \<Rightarrow>
            if a - b = 0 then (if x = NZero \<and> y = Fin 0 then NZero else Fin 0)
            else round64 (a - b)
        | (None, Some b) \<Rightarrow> x
        | (Some a, None) \<Rightarrow> inf_of (\<not> is_neg y)
        | (None, None) \<Rightarrow> if x = y then NaN else x)"

text \<open>\<open>x * y\<close>: the sign of the result is the exclusive or of the signs.\<close>

definition js_mul :: "jsnum \<Rightarrow> jsnum \<Rightarrow> jsnum" where
  "js_mul x y =
     (if x = NaN \<or> y = NaN then NaN
      else case (finite_val x, finite_val y) of
          (Some a, Some b) \<Rightarrow> fin_signed (is_neg x \<noteq> is_neg y) (a * b)
        | (None, Some b) \<Rightarrow> if b = 0 then NaN else inf_of (is_neg x \<noteq> is_neg y)
        | (Some a, None) \<Rightarrow> if a = 0 then NaN else inf_of (is_neg x \<noteq> is_neg y)
        | (None, None) \<Rightarrow> inf_of (is_neg x \<noteq> is_neg y))"

text \<open>\<open>x / y\<close>: a nonzero value over a zero is an infinity, \<open>0 / 0\<close> is \<open>NaN\<close>.\<close>

definition js_div :: "jsnum \<Rightarrow> jsnum \<Rightarrow> jsnum" where
  "js_div x y =
     (if x = NaN \<or> y = NaN then NaN
      else case (finite_val x, finite_val y) of
          (Some a, Some b) \<Rightarrow>
            if b = 0 then (if a = 0 then NaN else inf_of (is_neg x \<noteq> is_neg y))
            else fin_signed (is_neg x \<noteq> is_neg y) (a / b)
        | (None, Some b) \<Rightarrow> inf_of (is_neg x \<noteq> is_neg y)
        | (Some a, None) \<Rightarrow> zero_of (is_neg x \<noteq> is_neg y)
        | (None, None) \<Rightarrow> NaN)"

text \<open>
  \<open>Math.ceil\<close>: a value in \<open>(-1, 0)\<close> rounds up to \<open>-0\<close>. The ceiling of a binary64
  value is a binary64 value, so nothing is rounded.
\<close>

fun js_ceil :: "jsnum \<Rightarrow> jsnum" where
  "js_ceil (Fin r) = (if r < 0 \<and> \<lceil>r\<rceil> = 0 then NZero else Fin (of_int \<lceil>r\<rceil>))"
| "js_ceil NaN = NaN"
| "js_ceil PInf = PInf"
| "js_ceil NInf = NInf"
| "js_ceil NZero = NZero"

text \<open>\<open>x || d\<close> on a number: \<open>NaN\<close>, \<open>+0\<close> and \<open>-0\<close> are falsy.\<close>

definition num_or :: "jsnum \<Rightarrow> jsnum \<Rightarrow> jsnum" where
  "num_or x d = (if x = NaN \<or> x = NZero \<or> x = Fin 0 then d else x)"

subsection \<open>parseInt and parseFloat\<close>

text \<open>
  White space that \<open>parseInt\<close> and \<open>parseFloat\<close> skip, as far as an 8-bit character
  can be one: tab, line feed, vertical tab, form feed, carriage return, space and the
  no-break space.
\<close>

definition is_ws :: "char \<Rightarrow> bool" where
  "is_ws c = (of_char c \<in> {9::nat, 10, 11, 12, 13, 32, 160})"

definition is_digit :: "char \<Rightarrow> bool" where
  "is_digit c = (48 \<le> (of_char c :: nat) \<and> (of_char c :: nat) \<le> 57)"

definition digit_val :: "char \<Rightarrow> nat" where
  "digit_val c = of_char c - 48"

definition digits_val :: "string \<Rightarrow> nat" where
  "digits_val ds = foldl (\<lambda>acc c. 10 * acc + digit_val c) 0 ds"

text \<open>A leading \<open>+\<close> or \<open>-\<close>: whether the sign is negative, and the rest.\<close>

fun take_sign :: "string \<Rightarrow> bool \<times> string" where
  "take_sign [] = (False, [])"
| "take_sign (c # cs) =
     (if c = CHR ''-'' then (True, cs)
      else if c = CHR ''+'' then (False, cs)
      else (False, c # cs))"

text \<open>
  \<open>parseInt(s, 10)\<close>: skip white space, read a sign, then the longest run of decimal
  digits; \<open>NaN\<close> when there is none. The integer read is rounded to binary64, so a
  digit string above \<open>2^53\<close> may lose its last digits and one of 309 digits or more is
  an infinity. \<open>parseInt("-0", 10)\<close> is \<open>-0\<close>.
\<close>

definition parseInt :: "string \<Rightarrow> jsnum" where
  "parseInt s =
     (let (neg, u) = take_sign (dropWhile is_ws s);
          ds = takeWhile is_digit u
      in if ds = [] then NaN
         else fin_signed neg ((if neg then - 1 else 1) * of_nat (digits_val ds)))"

fun starts_with :: "string \<Rightarrow> string \<Rightarrow> bool" where
  "starts_with s [] = True"
| "starts_with [] (p # ps) = False"
| "starts_with (c # cs) (p # ps) = (c = p \<and> starts_with cs ps)"

text \<open>
  The exponent part of a decimal literal: \<open>e\<close> or \<open>E\<close>, an optional sign and at
  least one digit; anything else is no exponent.
\<close>

definition exponent_of :: "string \<Rightarrow> int" where
  "exponent_of r =
     (case r of
        [] \<Rightarrow> 0
      | c # cs \<Rightarrow>
          if c = CHR ''e'' \<or> c = CHR ''E'' then
            (let (neg, u) = take_sign cs; ds = takeWhile is_digit u
             in if ds = [] then 0
                else (if neg then - int (digits_val ds) else int (digits_val ds)))
          else 0)"

definition pow10 :: "int \<Rightarrow> rat" where
  "pow10 e = (if e < 0 then 1 / 10 ^ nat (- e) else 10 ^ nat e)"

text \<open>
  \<open>parseFloat(s)\<close>: skip white space, read a sign, then \<open>Infinity\<close> or the longest
  decimal literal (digits, an optional fraction, an optional exponent); \<open>NaN\<close> when no
  digit is found. The value of the literal is rounded to binary64.
\<close>

definition parseFloat :: "string \<Rightarrow> jsnum" where
  "parseFloat s =
     (let (neg, u) = take_sign (dropWhile is_ws s) in
      if starts_with u ''Infinity'' then inf_of neg
      else
        let ip = takeWhile is_digit u;
            r1 = dropWhile is_digit u;
            dot = (r1 \<noteq> [] \<and> hd r1 = CHR ''.'');
            fp = (if dot then takeWhile is_digit (tl r1) else []);
            r2 = (if dot then dropWhile is_digit (tl r1) else r1)
        in if ip = [] \<and> fp = [] then NaN
           else fin_signed neg
                  ((if neg then - 1 else 1)
                   * (of_nat (digits_val ip) + of_nat (digits_val fp) / 10 ^ length fp)
                   * pow10 (exponent_of r2)))"

text \<open>Template-literal rendering of a non-negative integer, as in \<open>`${Date.now()}`\<close>.\<close>

definition digit_char :: "nat \<Rightarrow> char" where
  "digit_char d = ''0123456789'' ! (d mod 10)"

fun string_of_nat :: "nat \<Rightarrow> string" where
  "string_of_nat n =
     (if n < 10 then [digit_char n]
      else string_of_nat (n div 10) @ [digit_char (n mod 10)])"

declare string_of_nat.simps [simp del]

section \<open>The sort stage of GET\<close>

text \<open>
  A JavaScript object used as a dictionary: its own properties in insertion order.
  \<open>obj[k] = v\<close> replaces the value of an existing key in place and appends a new key.
\<close>

fun obj_set :: "(string \<times> 'v) list \<Rightarrow> string \<Rightarrow> 'v \<Rightarrow> (string \<times> 'v) list" where
  "obj_set [] k v = [(k, v)]"
| "obj_set ((k', v') # kvs) k v =
     (if k' = k then (k, v) # kvs else (k', v') # obj_set kvs k v)"

text \<open>
  The values a property read of \<open>sortFieldMap\<close> can give: one of its own strings, or a
  member inherited from \<open>Object.prototype\<close> (a built-in function, or the prototype object
  itself for \<open>__proto__\<close>).
\<close>

datatype jsvalue = JString string | JFunction string | JObjectPrototype

text \<open>The object literal of lines 238-244.\<close>

definition sortFieldMap :: "(string \<times> string) list" where
  "sortFieldMap =
     [(''price'', ''numericPrice''),
      (''year'', ''numericYear''),
      (''mileage'', ''numericMileage''),
      (''size'', ''numericSize''),
      (''weight'', ''numericWeight'')]"

text \<open>
  \<open>sortFieldMap\<close> is an object literal, so its prototype is \<open>Object.prototype\<close> and a
  read of a name it does not own falls through to these members.
\<close>

definition object_prototype :: "(string \<times> jsvalue) list" where
  "object_prototype =
     [(''constructor'', JFunction ''Object''),
      (''__defineGetter__'', JFunction ''__defineGetter__''),
      (''__defineSetter__'', JFunction ''__defineSetter__''),
      (''hasOwnProperty'', JFunction ''hasOwnProperty''),
      (''__lookupGetter__'', JFunction ''__lookupGetter__''),
      (''__lookupSetter__'', JFunction ''__lookupSetter__''),
      (''isPrototypeOf'', JFunction ''isPrototypeOf''),
      (''propertyIsEnumerable'', JFunction ''propertyIsEnumerable''),
      (''toString'', JFunction ''toString''),
      (''valueOf'', JFunction ''valueOf''),
      (''__proto__'', JObjectPrototype),
      (''toLocaleString'', JFunction ''toLocaleString'')]"

text \<open>\<open>sortFieldMap[name]\<close>: own properties first, then the prototype; None is \<open>undefined\<close>.\<close>

definition sortFieldMap_get :: "string \<Rightarrow> jsvalue option" where
  "sortFieldMap_get name =
     (case map_of sortFieldMap name of
        Some v \<Rightarrow> Some (JString v)
      | None \<Rightarrow> map_of object_prototype name)"

fun value_truthy :: "jsvalue option \<Rightarrow> bool" where
  "value_truthy None = False"
| "value_truthy (Some (JString s)) = (s \<noteq> [])"
| "value_truthy (Some (JFunction f)) = True"
| "value_truthy (Some JObjectPrototype) = True"

text \<open>A value used as a property key is converted to a string.\<close>

fun to_property_key :: "jsvalue \<Rightarrow> string" where
  "to_property_key (JString s) = s"
| "to_property_key (JFunction f) = ''function '' @ f @ ''() { [native code] }''"
| "to_property_key JObjectPrototype = ''[object Object]''"

text \<open>
  The callback of \<open>.map\<close> at lines 232-235:
  \<open>const [name, order] = sort.split(":"); return { name, order: order === "asc" ? 1 : -1 }\<close>.
\<close>

definition direction_token :: "string \<Rightarrow> string option" where
  "direction_token entry = element_at (js_split CHR '':'' entry) 1"

definition parse_sort :: "string \<Rightarrow> string \<times> int" where
  "parse_sort entry =
     (name_segment entry, if direction_token entry = Some ''asc'' then 1 else - 1)"

definition sortByFilter :: "string \<Rightarrow> (string \<times> int) list" where
  "sortByFilter sortByParam = map parse_sort (js_split CHR '','' sortByParam)"

text \<open>The body of \<open>forEach\<close> at lines 237-249.\<close>

definition sort_step :: "(string \<times> int) list \<Rightarrow> string \<times> int \<Rightarrow> (string \<times> int) list" where
  "sort_step sortStage entry =
     (if value_truthy (sortFieldMap_get (fst entry))
      then (case sortFieldMap_get (fst entry) of
              Some v \<Rightarrow> obj_set sortStage (to_property_key v) (snd entry)
            | None \<Rightarrow> sortStage)
      else sortStage)"

definition default_stage :: "(string \<times> int) list" where
  "default_stage = [(''createdAt'', - 1)]"

text \<open>Lines 227-254: \<open>sortStage\<close> from the \<open>sortBy\<close> query parameter.\<close>

definition sortStage_of :: "string option \<Rightarrow> (string \<times> int) list" where
  "sortStage_of sortByParam =
     (let sortStage =
            (case sortByParam of
               None \<Rightarrow> default_stage
             | Some p \<Rightarrow>
                 if p = [] then default_stage
                 else foldl sort_step [] (sortByFilter p))
      in if length sortStage = 0 then default_stage else sortStage)"

section \<open>The GET handler\<close>

text \<open>Anything thrown inside the handler's \<open>try\<close> block.\<close>

datatype error = Thrown

text \<open>
  The \<open>referer\<close> header as \<open>new URL\<close> sees it: absent (or empty), not a URL (the
  constructor throws), or a URL with an origin and a path.
\<close>

datatype referer = NoReferer | BadReferer | RefererURL string string

record request =
  searchParams :: "(string \<times> string) list"
  referer :: referer

text \<open>\<open>searchParams.get(name)\<close>: the first value of that name, or \<open>null\<close>.\<close>

definition get_param :: "request \<Rightarrow> string \<Rightarrow> string option" where
  "get_param req k = map_of (searchParams req) k"

text \<open>
  The pathname of \<open>new URL(referer || "http://localhost:3000")\<close>; the default URL has
  the path \<open>/\<close>.
\<close>

fun referer_pathname :: "referer \<Rightarrow> error + string" where
  "referer_pathname NoReferer = Inr ''/''"
| "referer_pathname BadReferer = Inl Thrown"
| "referer_pathname (RefererURL origin pathname) = Inr pathname"

text \<open>\<open>pathname.replace(/\/$/g, "")\<close> and \<open>pathname.replace(/^\//, "")\<close>.\<close>

definition strip_trailing_slash :: "string \<Rightarrow> string" where
  "strip_trailing_slash p = (if p \<noteq> [] \<and> last p = CHR ''/'' then butlast p else p)"

definition strip_leading_slash :: "string \<Rightarrow> string" where
  "strip_leading_slash p = (if p \<noteq> [] \<and> hd p = CHR ''/'' then tl p else p)"

text \<open>\<open>s.includes(sub)\<close>: \<open>sub\<close> occurs somewhere in \<open>s\<close>.\<close>

fun js_includes :: "string \<Rightarrow> string \<Rightarrow> bool" where
  "js_includes [] sub = (sub = [])"
| "js_includes (c # cs) sub = (starts_with (c # cs) sub \<or> js_includes cs sub)"

text \<open>The arguments of \<open>createCarPipeline\<close> (lines 264-275).\<close>

record pipeline_args =
  pa_pathname :: string
  pa_search :: string
  pa_detailsFilter :: "detail_filter list"
  pa_featuresFilter :: "string list"
  pa_sortStage :: "(string \<times> int) list"
  pa_skip :: jsnum
  pa_limit :: jsnum
  pa_carDetailOrderIds :: "string list"
  pa_minPrice :: jsnum
  pa_maxPrice :: jsnum

record price_range =
  pr_min :: rat
  pr_max :: rat

text \<open>The document the aggregation returns: \<open>{ cars, totalCars, priceRange }\<close>.\<close>

record 'c query_result =
  cars :: "'c list"
  totalCars :: nat
  priceRange :: price_range

text \<open>
  What the handler reaches outside itself. \<open>titleMap\<close>, \<open>Ordering\<close>,
  \<open>createCarPipeline\<close> and the \<open>Car\<close> model are imported from modules that are not
  part of the sources, so the keys of \<open>titleMap\<close> and the outcome of each call are
  parameters: \<open>aggregate\<close> stands for building the pipeline from its arguments and running
  it, and gives the array of result documents or throws.
\<close>

record 'c get_env =
  connect_ok :: bool
  titleMap_keys :: "string list"
  findOrdering :: "error + string list option"
  aggregate :: "pipeline_args \<Rightarrow> error + 'c query_result list"

text \<open>The calls on the document store that a request made, in order.\<close>

datatype db_op = FindOrdering | Aggregate pipeline_args

record pagination =
  currentPage :: jsnum
  totalPages :: jsnum
  limit :: jsnum
  totalItems :: jsnum
  pg_priceRange :: "price_range option"

datatype 'c body = Page "'c list" pagination | Failure string

record 'c response =
  status :: nat
  body :: "'c body"

text \<open>The response of the \<open>catch\<close> block (lines 298-304).\<close>

definition server_error :: "'c response" where
  "server_error = \<lparr> status = 500, body = Failure ''Failed to fetch car data'' \<rparr>"

text \<open>The rejection of lines 187-198; its pagination object has no \<open>priceRange\<close>.\<close>

definition bad_request :: "jsnum \<Rightarrow> jsnum \<Rightarrow> 'c response" where
  "bad_request page lmt =
     \<lparr> status = 400,
       body = Page []
         \<lparr> currentPage = num_or page (Fin 1), totalPages = Fin 0,
           limit = num_or lmt (Fin 10), totalItems = Fin 0, pg_priceRange = None \<rparr> \<rparr>"

text \<open>Lines 175-176.\<close>

definition page_of :: "request \<Rightarrow> jsnum" where
  "page_of req = parseInt (or_default (get_param req ''page'') ''1'')"

definition limit_of :: "request \<Rightarrow> jsnum" where
  "limit_of req = parseInt (or_default (get_param req ''limit'') ''24'')"

text \<open>The test of lines 183-186 on the path with its trailing slash removed.\<close>

definition unknown_category :: "string list \<Rightarrow> string \<Rightarrow> bool" where
  "unknown_category keys pathname =
     (\<not> js_includes pathname ''inventory'' \<and> pathname \<notin> set keys)"

text \<open>Lines 201-203: the category handed to the pipeline.\<close>

definition category_of :: "string \<Rightarrow> string" where
  "category_of pathname =
     (if js_includes pathname ''inventory'' then ''inventory''
      else strip_leading_slash pathname)"

text \<open>Lines 211-215.\<close>

definition featuresFilter_of :: "string option \<Rightarrow> string list" where
  "featuresFilter_of selectedFeatures =
     (case selectedFeatures of
        None \<Rightarrow> []
      | Some f \<Rightarrow> if f = [] then [] else js_split CHR '','' f)"

text \<open>Lines 204-275: the arguments of the pipeline, given the ordering record's ids.\<close>

definition pipeline_of :: "request \<Rightarrow> string \<Rightarrow> string list \<Rightarrow> pipeline_args" where
  "pipeline_of req pathname carDetailOrderIds =
     \<lparr> pa_pathname = category_of pathname,
       pa_search = or_default (get_param req ''search'') [],
       pa_detailsFilter = detailsFilter_of (get_param req ''details''),
       pa_featuresFilter = featuresFilter_of (get_param req ''features''),
       pa_sortStage = sortStage_of (get_param req ''sortBy''),
       pa_skip = js_mul (js_sub (page_of req) (Fin 1)) (limit_of req),
       pa_limit = limit_of req,
       pa_carDetailOrderIds = carDetailOrderIds,
       pa_minPrice = parseFloat (or_default (get_param req ''minPrice'') ''0''),
       pa_maxPrice = parseFloat (or_default (get_param req ''maxPrice'') ''Infinity'') \<rparr>"

text \<open>Lines 278-282: \<open>result || { cars: [], totalCars: 0, priceRange: { min: 0, max: 0 } }\<close>.\<close>

definition empty_result :: "'c query_result" where
  "empty_result = \<lparr> cars = [], totalCars = 0, priceRange = \<lparr> pr_min = 0, pr_max = 0 \<rparr> \<rparr>"

definition first_result :: "'c query_result list \<Rightarrow> 'c query_result" where
  "first_result results = (case results of [] \<Rightarrow> empty_result | r # _ \<Rightarrow> r)"

text \<open>Lines 283-297.\<close>

definition ok_response :: "request \<Rightarrow> 'c query_result \<Rightarrow> 'c response" where
  "ok_response req r =
     \<lparr> status = 200,
       body = Page (cars r)
         \<lparr> currentPage = page_of req,
           totalPages = js_ceil (js_div (number_of_count (totalCars r)) (limit_of req)),
           limit = limit_of req,
           totalItems = number_of_count (totalCars r),
           pg_priceRange = Some (priceRange r) \<rparr> \<rparr>"

text \<open>Line 257: \<open>carDetailOrdering?.ids ?? []\<close>.\<close>

definition ordering_ids :: "string list option \<Rightarrow> string list" where
  "ordering_ids carDetailOrdering =
     (case carDetailOrdering of None \<Rightarrow> [] | Some ids \<Rightarrow> ids)"

text \<open>
  The handler: the response, and the calls it made on the document store. Every
  exception inside \<open>try\<close> ends in the \<open>catch\<close> block's response.
\<close>

definition GET :: "'c get_env \<Rightarrow> request \<Rightarrow> 'c response \<times> db_op list" where
  "GET env req =
     (if \<not> connect_ok env then (server_error, [])
      else case referer_pathname (referer req) of
          Inl e \<Rightarrow> (server_error, [])
        | Inr url_pathname \<Rightarrow>
            let pathname = strip_trailing_slash url_pathname in
            if unknown_category (titleMap_keys env) pathname
            then (bad_request (page_of req) (limit_of req), [])
            else case findOrdering env of
                Inl e \<Rightarrow> (server_error, [FindOrdering])
              | Inr carDetailOrdering \<Rightarrow>
                  let carDetailOrderIds = ordering_ids carDetailOrdering;
                      pipeline = pipeline_of req pathname carDetailOrderIds
                  in case aggregate env pipeline of
                       Inl e \<Rightarrow> (server_error, [FindOrdering, Aggregate pipeline])
                     | Inr results \<Rightarrow>
                         (ok_response req (first_result results),
                          [FindOrdering, Aggregate pipeline]))"

section \<open>The aggregation, from the specification\<close>

text \<open>
  Modelled from the spec: \<open>createCarPipeline\<close> (module \<open>pipeline/filterCars\<close>) and its
  execution by \<open>Car.aggregate\<close> are not part of the sources. Section 4.1 of the
  specification gives their contract: steps 1-6 select the filtered set; step 7 computes
  over it the page (sort, skip, limit), the total count and the least and greatest
  numeric price; step 8 merges them into one result object, with count zero and price
  range \<open>{min: 0, max: 0}\<close> when the filtered set is empty. The selection predicate, the
  numeric price and the sort rank of a listing are left as parameters.
\<close>

record 'c collection_model =
  listings :: "'c list"
  selects :: "pipeline_args \<Rightarrow> 'c \<Rightarrow> bool"
  numericPrice :: "'c \<Rightarrow> rat"
  sort_rank :: "(string \<times> int) list \<Rightarrow> 'c \<Rightarrow> int"

definition filtered_set :: "'c collection_model \<Rightarrow> pipeline_args \<Rightarrow> 'c list" where
  "filtered_set m args = filter (selects m args) (listings m)"

definition price_range_of :: "rat list \<Rightarrow> price_range" where
  "price_range_of ps =
     (case ps of
        [] \<Rightarrow> \<lparr> pr_min = 0, pr_max = 0 \<rparr>
      | p # qs \<Rightarrow> \<lparr> pr_min = fold min qs p, pr_max = fold max qs p \<rparr>)"

text \<open>A skip count or page size as a number of listings.\<close>

definition count_of :: "jsnum \<Rightarrow> nat" where
  "count_of x = (case finite_val x of None \<Rightarrow> 0 | Some r \<Rightarrow> nat \<lfloor>r\<rfloor>)"

definition run_pipeline :: "'c collection_model \<Rightarrow> pipeline_args \<Rightarrow> 'c query_result" where
  "run_pipeline m args =
     \<lparr> cars = take (count_of (pa_limit args))
                (drop (count_of (pa_skip args))
                   (sort_key (sort_rank m (pa_sortStage args)) (filtered_set m args))),
       totalCars = length (filtered_set m args),
       priceRange = price_range_of (map (numericPrice m) (filtered_set m args)) \<rparr>"

section \<open>The POST handler\<close>

text \<open>An attached file: its name and its bytes.\<close>

record upload =
  file_name :: string
  file_bytes :: "nat list"

text \<open>
  The multipart body: \<open>formData.get(k)\<close> reads \<open>text_fields\<close>, and
  \<open>formData.getAll("images")\<close> is \<open>image_files\<close>.
\<close>

record form_data =
  text_fields :: "(string \<times> string) list"
  image_files :: "upload list"

definition form_get :: "form_data \<Rightarrow> string \<Rightarrow> string option" where
  "form_get form k = map_of (text_fields form) k"

datatype json =
  JNull | JBool bool | JNum rat | JStr string | JArr "json list" | JObj "(string \<times> json) list"

record image =
  filename :: string
  path :: string

record car_doc =
  title :: string
  price :: string
  extra :: string
  details :: json
  features :: json
  videos :: json
  images :: "image list"
  pages :: json
  sellerNotes :: json

text \<open>
  What the handler reaches outside itself: the connection, the clock (\<open>now i\<close> is the
  value of \<open>Date.now()\<close> in the callback of the \<open>i\<close>-th attachment), the \<open>path\<close> and
  \<open>fs\<close> modules (\<open>write_ok i\<close>: whether \<open>writeFile\<close> for the \<open>i\<close>-th attachment
  resolves), \<open>JSON.parse\<close> with the conversion to object ids that follows it (an
  \<open>Inl\<close> is a throw), and \<open>save\<close>.
\<close>

record post_env =
  db_connect_ok :: bool
  cwd :: string
  path_join :: "string \<Rightarrow> string \<Rightarrow> string"
  mkdir_ok :: bool
  now :: "nat \<Rightarrow> nat"
  write_ok :: "nat \<Rightarrow> bool"
  decode_details :: "string option \<Rightarrow> error + json"
  decode_features :: "string option \<Rightarrow> error + json"
  decode_sellerNotes :: "string option \<Rightarrow> error + json"
  json_parse :: "string \<Rightarrow> error + json"
  save_ok :: "car_doc \<Rightarrow> bool"

text \<open>
  The state the handler changes: the files by path, whether the upload directory
  exists, and the listing documents of the collection. A file's entry holds the byte
  strings that the request which last wrote the path wrote to it. With one write that
  is the file's content; several writes of one request to one path race, and the
  content they leave is not resolved.
\<close>

record world =
  files :: "(string \<times> nat list list) list"
  upload_dir_exists :: bool
  car_collection :: "car_doc list"

record post_response =
  post_status :: nat
  message :: string
  car :: "car_doc option"

definition post_failure :: post_response where
  "post_failure =
     \<lparr> post_status = 500, message = ''Failed to process the car data'', car = None \<rparr>"

definition post_success :: "car_doc \<Rightarrow> post_response" where
  "post_success doc =
     \<lparr> post_status = 200, message = ''Car data uploaded successfully'', car = Some doc \<rparr>"

definition uploadDir :: "post_env \<Rightarrow> string" where
  "uploadDir env = path_join env (cwd env) ''public/uploads''"

text \<open>Line 102: \<open>`${Date.now()}-${file.name}`\<close>.\<close>

definition fileName_of :: "post_env \<Rightarrow> nat \<Rightarrow> upload \<Rightarrow> string" where
  "fileName_of env i f = string_of_nat (now env i) @ ''-'' @ file_name f"

text \<open>Lines 108-111: the value the callback returns.\<close>

definition uploaded_file :: "post_env \<Rightarrow> nat \<Rightarrow> upload \<Rightarrow> image" where
  "uploaded_file env i f =
     \<lparr> filename = fileName_of env i f, path = ''api/uploads/'' @ fileName_of env i f \<rparr>"

text \<open>The attachments with their positions.\<close>

definition indexed :: "'a list \<Rightarrow> (nat \<times> 'a) list" where
  "indexed xs = zip [0..<length xs] xs"

text \<open>Lines 103-104: the path a callback writes to.\<close>

definition filePath_of :: "post_env \<Rightarrow> nat \<times> upload \<Rightarrow> string" where
  "filePath_of env entry =
     path_join env (uploadDir env) (fileName_of env (fst entry) (snd entry))"

text \<open>
  Lines 104-107: one write, added to the writes the request has made so far. A write
  that rejects adds nothing.
\<close>

definition record_write :: "post_env \<Rightarrow> (string \<times> nat list list) list \<Rightarrow> nat \<times> upload \<Rightarrow> (string \<times> nat list list) list" where
  "record_write env written entry =
     (if write_ok env (fst entry)
      then obj_set written (filePath_of env entry)
             ((case map_of written (filePath_of env entry) of
                 None \<Rightarrow> []
               | Some earlier \<Rightarrow> earlier) @ [file_bytes (snd entry)])
      else written)"

text \<open>
  Every callback of \<open>files.map\<close> is started, so every write is attempted whether or
  not another one fails.
\<close>

definition request_writes :: "post_env \<Rightarrow> upload list \<Rightarrow> (string \<times> nat list list) list" where
  "request_writes env fls = foldl (record_write env) [] (indexed fls)"

text \<open>\<open>writeFile\<close> creates the file or replaces what an earlier request left there.\<close>

definition write_all :: "post_env \<Rightarrow> upload list \<Rightarrow> (string \<times> nat list list) list \<Rightarrow> (string \<times> nat list list) list" where
  "write_all env fls fs =
     foldl (\<lambda>fs' written. obj_set fs' (fst written) (snd written)) fs (request_writes env fls)"

text \<open>\<open>Promise.all\<close> resolves when every write resolved and rejects when one rejected.\<close>

definition all_written :: "post_env \<Rightarrow> upload list \<Rightarrow> bool" where
  "all_written env fls = list_all (write_ok env) [0..<length fls]"

definition uploadedFiles :: "post_env \<Rightarrow> upload list \<Rightarrow> image list" where
  "uploadedFiles env fls = map (\<lambda>entry. uploaded_file env (fst entry) (snd entry)) (indexed fls)"

text \<open>\<open>formData.get(k) ? JSON.parse(formData.get(k)) : []\<close> (lines 134-140).\<close>

definition parse_or_empty :: "post_env \<Rightarrow> string option \<Rightarrow> error + json" where
  "parse_or_empty env v =
     (case v of
        None \<Rightarrow> Inr (JArr [])
      | Some s \<Rightarrow> if s = [] then Inr (JArr []) else json_parse env s)"

text \<open>Lines 115-147: the document, or the first throw on the way to it.\<close>

definition build_document :: "post_env \<Rightarrow> form_data \<Rightarrow> image list \<Rightarrow> error + car_doc" where
  "build_document env form imgs =
     (case decode_details env (form_get form ''details'') of
        Inl e \<Rightarrow> Inl e
      | Inr ds \<Rightarrow>
     (case decode_features env (form_get form ''features'') of
        Inl e \<Rightarrow> Inl e
      | Inr fs \<Rightarrow>
     (case parse_or_empty env (form_get form ''videos'') of
        Inl e \<Rightarrow> Inl e
      | Inr vs \<Rightarrow>
     (case parse_or_empty env (form_get form ''pages'') of
        Inl e \<Rightarrow> Inl e
      | Inr ps \<Rightarrow>
     (case decode_sellerNotes env (form_get form ''sellerNotes'') of
        Inl e \<Rightarrow> Inl e
      | Inr ns \<Rightarrow>
          Inr \<lparr> title = or_default (form_get form ''title'') [],
                price = or_default (form_get form ''price'') [],
                extra = or_default (form_get form ''extra'') [],
                details = ds,
                features = fs,
                videos = vs,
                images = imgs,
                pages = ps,
                sellerNotes = ns \<rparr>)))))"

text \<open>
  The handler: the response and the state it leaves. The body is None when
  \<open>request.formData()\<close> throws.
\<close>

definition POST :: "post_env \<Rightarrow> world \<Rightarrow> form_data option \<Rightarrow> post_response \<times> world" where
  "POST env w request_body =
     (if \<not> db_connect_ok env then (post_failure, w)
      else case request_body of
          None \<Rightarrow> (post_failure, w)
        | Some formData \<Rightarrow>
            if \<not> upload_dir_exists w \<and> \<not> mkdir_ok env then (post_failure, w)
            else
              let w1 = w\<lparr> upload_dir_exists := True,
                          files := write_all env (image_files formData) (files w) \<rparr>
              in if \<not> all_written env (image_files formData) then (post_failure, w1)
                 else case build_document env formData
                             (uploadedFiles env (image_files formData)) of
                     Inl e \<Rightarrow> (post_failure, w1)
                   | Inr carDocument \<Rightarrow>
                       if save_ok env carDocument
                       then (post_success carDocument,
                             w1\<lparr> car_collection := car_collection w1 @ [carDocument] \<rparr>)
                       else (post_failure, w1))"

section \<open>Example inputs\<close>

text \<open>
  A store with the category key \<open>/suv\<close> whose aggregation reports five matching
  listings, two of them on the page, and a request with a given referring path and
  query parameters.
\<close>

definition example_env :: "nat get_env" where
  "example_env =
     \<lparr> connect_ok = True,
       titleMap_keys = [''/suv''],
       findOrdering = Inr None,
       aggregate = (\<lambda>q. Inr [\<lparr> cars = [1, 2], totalCars = 5,
                                 priceRange = \<lparr> pr_min = 100, pr_max = 900 \<rparr> \<rparr>]) \<rparr>"

definition example_request :: "string \<Rightarrow> (string \<times> string) list \<Rightarrow> request" where
  "example_request pathname params =
     \<lparr> searchParams = params, referer = RefererURL ''https://dealer.example'' pathname \<rparr>"

text \<open>
  A collection of three listings (each one its own price) in which a listing matches
  only requests without a search term, and the store that answers from it.
\<close>

definition example_model :: "nat collection_model" where
  "example_model =
     \<lparr> listings = [100, 250, 900],
       selects = (\<lambda>q c. pa_search q = []),
       numericPrice = of_nat,
       sort_rank = (\<lambda>stage c. int c) \<rparr>"

definition example_store :: "nat get_env" where
  "example_store = example_env \<lparr> aggregate := (\<lambda>q. Inr [run_pipeline example_model q]) \<rparr>"

text \<open>
  An upload in which every write and the save succeed and the clock reads the same
  millisecond in every callback. Its decoders agree with \<open>JSON.parse\<close> and the
  conversions that follow it on what the example submission sends: the text \<open>[]\<close> is
  the empty array, and an absent field throws (\<open>JSON.parse(null)\<close> is \<open>null\<close>, which
  has no \<open>map\<close>).
\<close>

definition example_decode :: "string option \<Rightarrow> error + json" where
  "example_decode field = (if field = Some ''[]'' then Inr (JArr []) else Inl Thrown)"

definition example_post_env :: post_env where
  "example_post_env =
     \<lparr> db_connect_ok = True,
       cwd = ''/app'',
       path_join = (\<lambda>dir name. dir @ ''/'' @ name),
       mkdir_ok = True,
       now = (\<lambda>i. 1700000000000),
       write_ok = (\<lambda>i. True),
       decode_details = example_decode,
       decode_features = example_decode,
       decode_sellerNotes = example_decode,
       json_parse = (\<lambda>text. example_decode (Some text)),
       save_ok = (\<lambda>doc. True) \<rparr>"

definition example_world :: world where
  "example_world = \<lparr> files = [], upload_dir_exists = True, car_collection = [] \<rparr>"

text \<open>
  A submission with empty \<open>details\<close>, \<open>features\<close> and \<open>sellerNotes\<close> arrays and two
  attachments that have the same name.
\<close>

definition example_form :: form_data where
  "example_form =
     \<lparr> text_fields = [(''title'', ''Coupe''), (''price'', ''$12,500''),
                       (''details'', ''[]''), (''features'', ''[]''),
                       (''sellerNotes'', ''[]'')],
       image_files = [\<lparr> file_name = ''a.png'', file_bytes = [1, 2, 3] \<rparr>,
                      \<lparr> file_name = ''a.png'', file_bytes = [4, 5] \<rparr>] \<rparr>"

section \<open>Auxiliary notions for the properties\<close>

text \<open>
  The key under which the \<open>forEach\<close> body stores an entry of \<open>sortBy\<close> with the given
  field name; None when the body leaves the sort stage unchanged.
\<close>

definition stage_key :: "string \<Rightarrow> string option" where
  "stage_key name =
     (if value_truthy (sortFieldMap_get name)
      then map_option to_property_key (sortFieldMap_get name) else None)"

text \<open>A group of the \<open>details\<close> parameter that has a colon and a non-empty value segment.\<close>

definition has_values :: "string \<Rightarrow> bool" where
  "has_values g = (case value_segment g of None \<Rightarrow> False | Some v \<Rightarrow> v \<noteq> [])"

section \<open>Properties of binary64 rounding\<close>

lemma flog2_bounds:
  assumes "0 < a"
  shows "2 powi (flog2 a) \<le> a \<and> a < 2 powi (flog2 a + 1)"
proof -
  obtain p q where pq: "quotient_of a = (p, q)" by (cases "quotient_of a")
  have q: "0 < q" using pq by (rule quotient_of_denom_pos)
  have a: "a = of_int p / of_int q" using pq by (rule quotient_of_div)
  have p: "0 < p" using assms q unfolding a by (simp add: zero_less_divide_iff)
  let ?bp = "bitlen p" and ?bq = "bitlen q"
  from bitlen_bounds [OF p] have p1: "2 ^ nat (?bp - 1) \<le> p" and p2: "p < 2 ^ nat ?bp" by auto
  from bitlen_bounds [OF q] have q1: "2 ^ nat (?bq - 1) \<le> q" and q2: "q < 2 ^ nat ?bq" by auto
  have bp: "1 \<le> ?bp" using p by (simp add: bitlen_alt_def)
  have bq: "1 \<le> ?bq" using q by (simp add: bitlen_alt_def)
  have P1: "(2::rat) powi (?bp - 1) \<le> of_int p"
  proof -
    have "(of_int (2 ^ nat (?bp - 1)) :: rat) \<le> of_int p" using p1 by (simp only: of_int_le_iff)
    then show ?thesis using bp by (simp add: power_int_def)
  qed
  have P2: "(of_int p :: rat) < 2 powi ?bp"
  proof -
    have "(of_int p :: rat) < of_int (2 ^ nat ?bp)" using p2 by (simp only: of_int_less_iff)
    then show ?thesis using bp by (simp add: power_int_def)
  qed
  have Q1: "(2::rat) powi (?bq - 1) \<le> of_int q"
  proof -
    have "(of_int (2 ^ nat (?bq - 1)) :: rat) \<le> of_int q" using q1 by (simp only: of_int_le_iff)
    then show ?thesis using bq by (simp add: power_int_def)
  qed
  have Q2: "(of_int q :: rat) < 2 powi ?bq"
  proof -
    have "(of_int q :: rat) < of_int (2 ^ nat ?bq)" using q2 by (simp only: of_int_less_iff)
    then show ?thesis using bq by (simp add: power_int_def)
  qed
  have qpos: "(0::rat) < of_int q" using q by simp
  let ?k = "?bp - ?bq"
  have lo: "(2::rat) powi (?k - 1) \<le> a"
  proof -
    have "(2::rat) powi (?k - 1) * of_int q \<le> 2 powi (?k - 1) * 2 powi ?bq"
      using Q2 by (intro mult_left_mono) auto
    also have "\<dots> = 2 powi (?bp - 1)"
      by (simp add: power_int_add [symmetric])
    also have "\<dots> \<le> of_int p" by (rule P1)
    finally show ?thesis unfolding a using qpos by (simp add: pos_le_divide_eq)
  qed
  have hi: "a < (2::rat) powi (?k + 1)"
  proof -
    have "(of_int p :: rat) < 2 powi ?bp" by (rule P2)
    also have "\<dots> = 2 powi (?k + 1) * 2 powi (?bq - 1)"
      by (simp add: power_int_add [symmetric])
    also have "\<dots> \<le> 2 powi (?k + 1) * of_int q"
      using Q1 by (intro mult_left_mono) auto
    finally show ?thesis unfolding a using qpos by (simp add: pos_divide_less_eq)
  qed
  show ?thesis
  proof (cases "(2::rat) powi ?k \<le> a")
    case True
    then have "flog2 a = ?k" by (simp add: flog2_def pq)
    with True hi show ?thesis by simp
  next
    case False
    then have "flog2 a = ?k - 1" by (simp add: flog2_def pq)
    with False lo show ?thesis by simp
  qed
qed


lemma flog2_unique:
  assumes "0 < a" and "2 powi k \<le> a" and "a < 2 powi (k + 1)"
  shows "flog2 a = k"
proof (rule ccontr)
  assume ne: "flog2 a \<noteq> k"
  from flog2_bounds [OF assms(1)]
  have lo: "2 powi (flog2 a) \<le> a" and hi: "a < 2 powi (flog2 a + 1)" by auto
  show False
  proof (cases "flog2 a < k")
    case True
    then have "(2::rat) powi (flog2 a + 1) \<le> 2 powi k"
      by (intro power_int_increasing) auto
    with hi assms(2) show False by simp
  next
    case False
    with ne have "k + 1 \<le> flog2 a" by simp
    then have "(2::rat) powi (k + 1) \<le> 2 powi (flog2 a)"
      by (intro power_int_increasing) auto
    with lo assms(3) show False by simp
  qed
qed

lemma round_half_even_of_int [simp]: "round_half_even (of_int z) = z"
  by (simp add: round_half_even_def)

lemma scaled_int_down:
  "of_int (round_half_even (of_int z / 2 powi (- int k))) * 2 powi (- int k) = (of_int z :: rat)"
proof -
  have p: "(2::rat) powi (- int k) = inverse (2 ^ k)"
    by (simp add: power_int_minus)
  have "of_int z / inverse ((2::rat) ^ k) = of_int (z * 2 ^ k)"
    by (simp add: divide_inverse)
  then have "round_half_even (of_int z / inverse (2 ^ k)) = z * 2 ^ k"
    by (simp only: round_half_even_of_int)
  then show ?thesis
    unfolding p by simp
qed

lemma round64_of_int:
  assumes "n \<noteq> 0" and "\<bar>n\<bar> \<le> 2 ^ 53"
  shows "round64 (of_int n) = Fin (of_int n)"
proof -
  define a :: rat where "a = \<bar>of_int n\<bar>"
  define f where "f = flog2 a"
  define e where "e = max (f - 52) (- 1074)"
  have a_int: "a = of_int \<bar>n\<bar>" by (simp add: a_def)
  have "1 \<le> \<bar>n\<bar>" using assms(1) by simp
  then have a1: "1 \<le> a" unfolding a_int by (simp only: of_int_1_le_iff)
  have a53: "a \<le> 2 ^ 53"
  proof -
    have "(of_int \<bar>n\<bar> :: rat) \<le> of_int (2 ^ 53)" using assms(2) by (simp only: of_int_le_iff)
    then show ?thesis unfolding a_int by simp
  qed
  have apos: "0 < a" using a1 by simp
  from flog2_bounds [OF apos]
  have lo: "2 powi f \<le> a" and hi: "a < 2 powi (f + 1)" by (auto simp: f_def)
  have f0: "0 \<le> f"
  proof (rule ccontr)
    assume "\<not> 0 \<le> f"
    then have "f + 1 \<le> 0" by simp
    then have "(2::rat) powi (f + 1) \<le> 2 powi 0"
      by (intro power_int_increasing) auto
    with hi a1 show False by simp
  qed
  have f53: "f \<le> 53"
  proof -
    have "(2::rat) powi f \<le> 2 powi 53" using lo a53 by simp
    then show ?thesis by (rule power_int_le_imp_le_exp [rotated]) auto
  qed
  have e: "e = f - 52" using f0 by (simp add: e_def)
  have exact: "of_int (round_half_even (a / 2 powi e)) * 2 powi e = a"
  proof (cases "f \<le> 52")
    case True
    then have "e = - int (nat (52 - f))" by (simp add: e)
    then show ?thesis unfolding a_int by (simp only: scaled_int_down)
  next
    case False
    with f53 have f: "f = 53" by simp
    have "2 ^ 53 \<le> a" using lo unfolding f by simp
    with a53 have a: "a = 2 ^ 53" by simp
    have e1: "e = 1" by (simp add: e f)
    have "a / 2 powi e = of_int (2 ^ 52)" unfolding a e1 by simp
    then have "round_half_even (a / 2 powi e) = 2 ^ 52"
      by (simp only: round_half_even_of_int)
    then show ?thesis unfolding a e1 by simp
  qed
  have small: "\<not> (2::rat) ^ 1024 \<le> a"
  proof -
    have "(2::rat) ^ 53 < 2 ^ 1024" by (rule power_strict_increasing) auto
    with a53 show ?thesis by simp
  qed
  have nz: "a \<noteq> 0" using apos by simp
  have "round64 (of_int n) =
          (let v = of_int (round_half_even (a / 2 powi e)) * 2 powi e
           in if 2 ^ 1024 \<le> v then inf_of (of_int n < (0::rat))
              else if v = 0 then zero_of (of_int n < (0::rat))
              else Fin (if of_int n < (0::rat) then - v else v))"
    by (simp add: round64_def Let_def a_def f_def e_def)
  also have "\<dots> = Fin (if of_int n < (0::rat) then - a else a)"
    unfolding exact Let_def using small nz by simp
  also have "\<dots> = Fin (of_int n)"
    by (simp add: a_def abs_if)
  finally show ?thesis .
qed


lemma round_half_even_error: "\<bar>of_int (round_half_even r) - r\<bar> \<le> 1 / 2"
proof -
  define d where "d = r - of_int \<lfloor>r\<rfloor>"
  have d: "0 \<le> d" "d < 1"
    unfolding d_def by linarith+
  have r: "r = of_int \<lfloor>r\<rfloor> + d"
    by (simp add: d_def)
  have "round_half_even r =
          (if d < 1 / 2 then \<lfloor>r\<rfloor>
           else if 1 / 2 < d then \<lfloor>r\<rfloor> + 1
           else if even \<lfloor>r\<rfloor> then \<lfloor>r\<rfloor> else \<lfloor>r\<rfloor> + 1)"
    by (simp add: round_half_even_def Let_def d_def)
  then have "of_int (round_half_even r) - r = - d \<or> of_int (round_half_even r) - r = 1 - d"
    and "d < 1 / 2 \<longrightarrow> of_int (round_half_even r) - r = - d"
    and "1 / 2 < d \<longrightarrow> of_int (round_half_even r) - r = 1 - d"
    using r by (auto split: if_splits)
  with d show ?thesis
    by (cases "d < 1 / 2"; cases "1 / 2 < d") (auto simp: abs_if)
qed

lemma round64_error:
  assumes "2 powi (- 1022) \<le> \<bar>x\<bar>" and "\<bar>x\<bar> < 2 ^ 1023"
  shows "\<exists>y. round64 x = Fin y \<and> \<bar>y - x\<bar> \<le> \<bar>x\<bar> / 2 ^ 53"
proof -
  define a :: rat where "a = \<bar>x\<bar>"
  define f where "f = flog2 a"
  define e where "e = max (f - 52) (- 1074)"
  define v :: rat where "v = of_int (round_half_even (a / 2 powi e)) * 2 powi e"
  have apos: "0 < a"
  proof -
    have "(0::rat) < 2 powi (- 1022)" by (rule zero_less_power_int) simp
    with assms(1) show ?thesis by (simp add: a_def)
  qed
  from flog2_bounds [OF apos]
  have lo: "2 powi f \<le> a" and hi: "a < 2 powi (f + 1)" by (auto simp: f_def)
  have fl: "- 1022 \<le> f"
  proof (rule ccontr)
    assume "\<not> - 1022 \<le> f"
    then have "f + 1 \<le> - 1022" by simp
    then have "(2::rat) powi (f + 1) \<le> 2 powi (- 1022)"
      by (intro power_int_increasing) auto
    with hi assms(1) show False by (simp add: a_def)
  qed
  have e: "e = f - 52" using fl by (simp add: e_def)
  have epos: "(0::rat) < 2 powi e" by (rule zero_less_power_int) simp
  have "v - a = (of_int (round_half_even (a / 2 powi e)) - a / 2 powi e) * 2 powi e"
    using epos by (simp add: v_def field_simps)
  then have "\<bar>v - a\<bar> = \<bar>of_int (round_half_even (a / 2 powi e)) - a / 2 powi e\<bar> * 2 powi e"
    using epos by (simp add: abs_mult)
  also have "\<dots> \<le> (1 / 2) * 2 powi e"
    using epos by (intro mult_right_mono round_half_even_error) simp
  also have "\<dots> = 2 powi f / 2 ^ 53"
  proof -
    have "(2::rat) powi e = 2 powi f / 2 powi 52"
      unfolding e by (rule power_int_diff) simp
    then show ?thesis by simp
  qed
  also have "\<dots> \<le> a / 2 ^ 53"
    using lo by (simp add: divide_right_mono)
  finally have err: "\<bar>v - a\<bar> \<le> a / 2 ^ 53" .
  have tiny: "a / 2 ^ 53 < a"
    using apos by (simp add: field_simps)
  have vpos: "0 < v" using err tiny by linarith
  have vsmall: "v < 2 ^ 1024"
  proof -
    have "v < 2 * a" using err tiny by linarith
    also have "\<dots> < 2 * 2 ^ 1023" using assms(2) by (simp add: a_def)
    also have "\<dots> = (2::rat) ^ 1024" by simp
    finally show ?thesis .
  qed
  have "round64 x =
          (if 2 ^ 1024 \<le> v then inf_of (x < 0)
           else if v = 0 then zero_of (x < 0)
           else Fin (if x < 0 then - v else v))"
    by (simp add: round64_def Let_def a_def f_def e_def v_def)
  also have "\<dots> = Fin (if x < 0 then - v else v)"
    using vpos vsmall by simp
  finally have r: "round64 x = Fin (if x < 0 then - v else v)" .
  have "\<bar>(if x < 0 then - v else v) - x\<bar> = \<bar>v - a\<bar>"
    by (simp add: a_def abs_if)
  with err r show ?thesis
    by (auto simp: a_def)
qed


lemma quotient_integer_gap:
  fixes l z :: int and t :: nat
  assumes "l \<noteq> 0" and "of_int z \<noteq> (of_nat t / of_int l :: rat)"
  shows "1 / \<bar>of_int l :: rat\<bar> \<le> \<bar>of_int z - of_nat t / of_int l\<bar>"
proof -
  let ?L = "of_int l :: rat"
  have L: "?L \<noteq> 0" using assms(1) by simp
  have eq: "of_int z - of_nat t / ?L = of_int (z * l - int t) / ?L"
    using L by (simp add: field_simps)
  have "z * l - int t \<noteq> 0"
  proof
    assume "z * l - int t = 0"
    then have "z * l = int t" by simp
    then have "(of_int (z * l) :: rat) = of_int (int t)" by (simp only:)
    then have "of_int z * ?L = (of_nat t :: rat)" by simp
    then have "of_int z = of_nat t / ?L" using L by (simp add: field_simps)
    with assms(2) show False by simp
  qed
  then have "1 \<le> \<bar>z * l - int t\<bar>" by simp
  then have "(1::rat) \<le> \<bar>of_int (z * l - int t)\<bar>"
    by (simp only: of_int_abs [symmetric] of_int_1_le_iff)
  then have "1 / \<bar>?L\<bar> \<le> \<bar>of_int (z * l - int t)\<bar> / \<bar>?L\<bar>"
    using L by (simp add: divide_right_mono)
  then show ?thesis
    unfolding eq by (simp add: abs_divide)
qed

lemma ceiling_round64_quotient:
  fixes l :: int and t :: nat
  assumes "0 < t" and "t < 2 ^ 53" and "l \<noteq> 0" and "\<bar>l\<bar> \<le> 2 ^ 53"
  shows "\<exists>y. round64 (of_nat t / of_int l) = Fin y \<and> \<lceil>y\<rceil> = \<lceil>of_nat t / of_int l :: rat\<rceil>"
proof -
  let ?L = "of_int l :: rat"
  define x :: rat where "x = of_nat t / ?L"
  define c where "c = \<lceil>x\<rceil>"
  have Lpos: "0 < \<bar>?L\<bar>" using assms(3) by simp
  have L1: "1 \<le> \<bar>?L\<bar>"
  proof -
    have "1 \<le> \<bar>l\<bar>" using assms(3) by simp
    then show ?thesis by (simp only: of_int_abs [symmetric] of_int_1_le_iff)
  qed
  have L53: "\<bar>?L\<bar> \<le> 2 ^ 53"
  proof -
    have "(of_int \<bar>l\<bar> :: rat) \<le> of_int (2 ^ 53)" using assms(4) by (simp only: of_int_le_iff)
    then show ?thesis by simp
  qed
  have T1: "(1::rat) \<le> of_nat t" using assms(1) by simp
  have T53: "(of_nat t :: rat) < 2 ^ 53"
  proof -
    have "(of_nat t :: rat) < of_nat (2 ^ 53)" using assms(2) by (simp only: of_nat_less_iff)
    then show ?thesis by simp
  qed
  have ax: "\<bar>x\<bar> = of_nat t / \<bar>?L\<bar>" by (simp add: x_def abs_divide)
  have xle: "\<bar>x\<bar> \<le> of_nat t"
  proof -
    have "of_nat t / \<bar>?L\<bar> \<le> of_nat t / 1"
      using L1 by (intro divide_left_mono) auto
    then show ?thesis by (simp add: ax)
  qed
  have xge: "1 / 2 ^ 53 \<le> \<bar>x\<bar>"
  proof -
    have "(1::rat) / 2 ^ 53 \<le> 1 / \<bar>?L\<bar>"
      using L53 Lpos by (intro divide_left_mono) auto
    also have "\<dots> \<le> of_nat t / \<bar>?L\<bar>"
      using T1 Lpos by (intro divide_right_mono) auto
    finally show ?thesis by (simp add: ax)
  qed
  have lo: "2 powi (- 1022) \<le> \<bar>x\<bar>"
  proof -
    have a: "(2::rat) powi (- 1022) \<le> 2 powi (- 53)"
      by (intro power_int_increasing) auto
    have b: "(2::rat) powi (- 53) = 1 / 2 ^ 53"
      by (simp add: power_int_minus inverse_eq_divide)
    have "(2::rat) powi (- 1022) \<le> 1 / 2 ^ 53"
      using a unfolding b .
    then show ?thesis using xge by (rule order_trans)
  qed
  have hi: "\<bar>x\<bar> < 2 ^ 1023"
  proof -
    have "(2::rat) ^ 53 < 2 ^ 1023" by (rule power_strict_increasing) auto
    with xle T53 show ?thesis by simp
  qed
  from round64_error [OF lo hi] obtain y
    where y: "round64 x = Fin y" and err: "\<bar>y - x\<bar> \<le> \<bar>x\<bar> / 2 ^ 53" by blast
  have small: "\<bar>x\<bar> / 2 ^ 53 < 1 / \<bar>?L\<bar>"
  proof -
    have "\<bar>x\<bar> / 2 ^ 53 = (of_nat t / 2 ^ 53) / \<bar>?L\<bar>" by (simp add: ax)
    also have "\<dots> < 1 / \<bar>?L\<bar>"
      using T53 Lpos by (intro divide_strict_right_mono) auto
    finally show ?thesis .
  qed
  have "\<lceil>y\<rceil> = c"
  proof (cases "of_int c = x")
    case True
    have "x \<noteq> 0" using xge by auto
    with True have c0: "c \<noteq> 0" by auto
    have "\<bar>of_int c :: rat\<bar> < 2 ^ 53" using True xle T53 by simp
    then have "(of_int \<bar>c\<bar> :: rat) < of_int (2 ^ 53)" by simp
    then have "\<bar>c\<bar> < 2 ^ 53" by (simp only: of_int_less_iff)
    then have "round64 (of_int c) = Fin (of_int c)"
      using c0 by (intro round64_of_int) auto
    with y True have "y = of_int c" by simp
    then show ?thesis by simp
  next
    case False
    have up: "x \<le> of_int c" and down: "of_int c - 1 < x"
      unfolding c_def by linarith+
    from False up have lt: "x < of_int c" by simp
    from quotient_integer_gap [OF assms(3), of c t] False
    have g1: "1 / \<bar>?L\<bar> \<le> of_int c - x"
      using lt by (simp add: x_def)
    have "of_int (c - 1) \<noteq> x" using down by auto
    with quotient_integer_gap [OF assms(3), of "c - 1" t]
    have g2: "1 / \<bar>?L\<bar> \<le> x - (of_int c - 1)"
      using down by (simp add: x_def)
    have "of_int c - 1 < y" using err small g2 by linarith
    moreover have "y \<le> of_int c" using err small g1 by linarith
    ultimately show ?thesis by (rule ceiling_unique)
  qed
  with y show ?thesis by (auto simp: x_def c_def)
qed

lemma round64_numeral:
  "numeral k \<le> (2::int) ^ 53 \<Longrightarrow> round64 (numeral k) = Fin (numeral k)"
  using round64_of_int [of "numeral k"] by simp

lemma round64_neg_numeral:
  "numeral k \<le> (2::int) ^ 53 \<Longrightarrow> round64 (- numeral k) = Fin (- numeral k)"
  using round64_of_int [of "- numeral k"] by simp

lemma round64_one: "round64 1 = Fin 1"
  using round64_of_int [of 1] by simp

lemma number_of_count_exact:
  "n \<le> 2 ^ 53 \<Longrightarrow> number_of_count n = Fin (of_nat n)"
proof (cases "n = 0")
  case True
  then show ?thesis by (simp add: number_of_count_def fin_signed_def zero_of_def)
next
  case False
  assume "n \<le> 2 ^ 53"
  then have "int n \<le> 2 ^ 53" by (simp only: of_nat_le_iff [symmetric, where ?'a = int]) simp
  with False have "round64 (of_int (int n)) = Fin (of_int (int n))"
    by (intro round64_of_int) auto
  with False show ?thesis by (simp add: number_of_count_def fin_signed_def)
qed

text \<open>Rounding a positive rational whose binade is known.\<close>

lemma round64_in_binade:
  assumes "0 < x" and "2 powi k \<le> x" and "x < 2 powi (k + 1)"
  shows "round64 x =
           (let e = max (k - 52) (- 1074);
                v = of_int (round_half_even (x / 2 powi e)) * 2 powi e
            in if 2 ^ 1024 \<le> v then PInf else if v = 0 then Fin 0 else Fin v)"
proof -
  have "flog2 \<bar>x\<bar> = k"
    using assms by (intro flog2_unique) auto
  then show ?thesis
    using assms(1) by (simp add: round64_def Let_def inf_of_def zero_of_def)
qed

text \<open>
  Above \<open>2^53\<close> the last digits are lost: \<open>2^53 + 1\<close> parses to \<open>2^53\<close>, and the
  product \<open>94906267 * 94906267\<close> is rounded to an even number.
\<close>

lemma parseInt_above_safe_range:
  "parseInt ''9007199254740993'' = Fin 9007199254740992"
proof -
  have f: "\<lfloor>9007199254740993 / 2 :: rat\<rfloor> = 4503599627370496"
    by (rule floor_unique) simp_all
  have r: "round64 9007199254740993 = Fin 9007199254740992"
    by (subst round64_in_binade [where k = 53])
       (simp_all add: Let_def round_half_even_def f)
  have d: "digits_val ''9007199254740993'' = 9007199254740993"
    by (simp add: digits_val_def digit_val_def)
  show ?thesis
    by (simp add: parseInt_def is_ws_def is_digit_def d fin_signed_def r)
qed

lemma skip_above_safe_range:
  "js_mul (js_sub (Fin 94906268) (Fin 1)) (Fin 94906267) = Fin 9007199515875288"
proof -
  have s: "js_sub (Fin 94906268) (Fin 1) = Fin 94906267"
    by (simp add: js_sub_def round64_numeral)
  have f: "\<lfloor>9007199515875289 / 2 :: rat\<rfloor> = 4503599757937644"
    by (rule floor_unique) simp_all
  have r: "round64 9007199515875289 = Fin 9007199515875288"
    by (subst round64_in_binade [where k = 53])
       (simp_all add: Let_def round_half_even_def f)
  show ?thesis
    unfolding s by (simp add: js_mul_def fin_signed_def r)
qed


text \<open>A value of \<open>10^309\<close> is beyond the binary64 range.\<close>

lemma round64_overflow: "round64 (10 ^ 309) = PInf"
proof -
  have lo: "(2::rat) powi 1026 \<le> 10 ^ 309" by simp
  have hi: "(10::rat) ^ 309 < 2 powi (1026 + 1)" by simp
  have big: "(2::rat) ^ 1024 \<le> of_int (round_half_even (10 ^ 309 / 2 powi 974)) * 2 powi 974"
  proof -
    have "2 ^ 52 \<le> round_half_even (10 ^ 309 / 2 powi 974)"
    proof -
      have "(of_int (2 ^ 52) :: rat) \<le> 10 ^ 309 / 2 powi 974" by simp
      then have "2 ^ 52 \<le> \<lfloor>10 ^ 309 / 2 powi 974 :: rat\<rfloor>" by (simp only: le_floor_iff)
      then show ?thesis by (auto simp: round_half_even_def Let_def)
    qed
    then have "(of_int (2 ^ 52) :: rat) \<le> of_int (round_half_even (10 ^ 309 / 2 powi 974))"
      by (simp only: of_int_le_iff)
    then have "(of_int (2 ^ 52) :: rat) * 2 powi 974
               \<le> of_int (round_half_even (10 ^ 309 / 2 powi 974)) * 2 powi 974"
      by (intro mult_right_mono) auto
    moreover have "(2::rat) ^ 1024 \<le> of_int (2 ^ 52) * 2 powi 974" by simp
    ultimately show ?thesis by (rule order_trans [rotated])
  qed
  show ?thesis
    by (subst round64_in_binade [where k = 1026]) (use lo hi big in \<open>simp_all add: Let_def\<close>)
qed

lemmas js_eval =
  parseInt_def parseFloat_def is_ws_def is_digit_def digits_val_def digit_val_def
  fin_signed_def zero_of_def inf_of_def exponent_of_def pow10_def
  js_mul_def js_sub_def js_div_def num_or_def
  round64_numeral round64_neg_numeral round64_one

section \<open>Reaching the aggregation\<close>

text \<open>
  A request that gets past the connection, the referer and the category test, and
  whose ordering read succeeds, runs exactly one aggregation, with the arguments of
  lines 264-275.
\<close>

lemma GET_runs_query:
  assumes "connect_ok env"
    and "referer_pathname (referer req) = Inr url_pathname"
    and "\<not> unknown_category (titleMap_keys env) (strip_trailing_slash url_pathname)"
    and "findOrdering env = Inr ord"
  shows "snd (GET env req) =
           [FindOrdering,
            Aggregate (pipeline_of req (strip_trailing_slash url_pathname) (ordering_ids ord))]"
  using assms by (simp add: GET_def Let_def split: sum.splits)

text \<open>Whatever aggregation a request runs, its arguments are those of lines 264-275.\<close>

lemma GET_aggregate_args:
  assumes "Aggregate q \<in> set (snd (GET env req))"
  shows "\<exists>pathname ids. q = pipeline_of req pathname ids"
  using assms
  by (auto simp: GET_def Let_def split: if_splits sum.splits)

lemma example_log:
  "snd (GET example_env (example_request ''/inventory'' params))
     = [FindOrdering, Aggregate (pipeline_of (example_request ''/inventory'' params) ''/inventory'' [])]"
  by (simp add: GET_def Let_def example_env_def example_request_def unknown_category_def
        strip_trailing_slash_def ordering_ids_def)

section \<open>Properties of the detail filter\<close>

lemma js_split_nonempty: "js_split sep s \<noteq> []"
  by (induction s) (auto split: list.splits)

lemma has_values_iff:
  "has_values g \<longleftrightarrow> value_segment g \<noteq> None \<and> value_segment g \<noteq> Some []"
  by (simp add: has_values_def split: option.splits)

lemma df_values_parse_detail:
  "df_values (parse_detail g) \<noteq> [] \<longleftrightarrow> has_values g"
  by (auto simp: parse_detail_def has_values_def js_split_nonempty split: option.splits)

lemma detailsFilter_of_eq:
  "detailsFilter_of detailsParam =
     map parse_detail (filter has_values (js_split CHR '';'' (or_default detailsParam [])))"
proof (cases detailsParam)
  case None
  then show ?thesis
    by (simp add: detailsFilter_of_def has_values_def value_segment_def)
next
  case (Some p)
  show ?thesis
  proof (cases "p = []")
    case True
    with Some show ?thesis
      by (simp add: detailsFilter_of_def has_values_def value_segment_def)
  next
    case False
    with Some show ?thesis
      by (simp add: detailsFilter_of_def filter_map comp_def df_values_parse_detail)
  qed
qed

text \<open>
  C3. In every aggregation the handler runs, the detail filter is the parse of exactly
  those groups of the \<open>details\<close> parameter that have a colon and a non-empty value
  segment, in their order, so none of its entries has an empty value list; a group
  without a colon or with an empty value segment parses to an empty value list and is
  left out. A request that passes the connection, the referer and the category test
  and whose ordering read succeeds does run an aggregation.
\<close>

theorem GET_detail_filter_discards_empty_value_lists:
  "(\<forall>q. Aggregate q \<in> set (snd (GET env req)) \<longrightarrow>
         pa_detailsFilter q
           = map parse_detail
               (filter has_values (js_split CHR '';'' (or_default (get_param req ''details'') [])))
         \<and> (\<forall>d \<in> set (pa_detailsFilter q). df_values d \<noteq> []))
   \<and> (connect_ok env
        \<and> referer_pathname (referer req) = Inr url_pathname
        \<and> \<not> unknown_category (titleMap_keys env) (strip_trailing_slash url_pathname)
        \<and> findOrdering env = Inr ord
        \<longrightarrow> (\<exists>q. snd (GET env req) = [FindOrdering, Aggregate q]))
   \<and> (has_values g \<longleftrightarrow> value_segment g \<noteq> None \<and> value_segment g \<noteq> Some [])
   \<and> (\<not> has_values g \<longrightarrow> df_values (parse_detail g) = [])"
proof (intro conjI allI impI)
  fix q
  assume "Aggregate q \<in> set (snd (GET env req))"
  from GET_aggregate_args [OF this] obtain pathname ids
    where q: "q = pipeline_of req pathname ids" by blast
  show eq: "pa_detailsFilter q
          = map parse_detail
              (filter has_values (js_split CHR '';'' (or_default (get_param req ''details'') [])))"
    by (simp add: q pipeline_of_def detailsFilter_of_eq)
  show "\<forall>d \<in> set (pa_detailsFilter q). df_values d \<noteq> []"
    unfolding eq by (auto simp: df_values_parse_detail)
next
  assume "connect_ok env
        \<and> referer_pathname (referer req) = Inr url_pathname
        \<and> \<not> unknown_category (titleMap_keys env) (strip_trailing_slash url_pathname)
        \<and> findOrdering env = Inr ord"
  then show "\<exists>q. snd (GET env req) = [FindOrdering, Aggregate q]"
    using GET_runs_query [of env req url_pathname ord] by blast
next
  show "has_values g \<longleftrightarrow> value_segment g \<noteq> None \<and> value_segment g \<noteq> Some []"
    by (rule has_values_iff)
next
  assume "\<not> has_values g"
  then show "df_values (parse_detail g) = []"
    using df_values_parse_detail [of g] by blast
qed

theorem GET_detail_filter_discards_empty_value_lists_witness:
  "\<exists>q. snd (GET example_env
               (example_request ''/inventory'' [(''details'', ''Color:Red,Blue;Make;Year:'')]))
          = [FindOrdering, Aggregate q]
        \<and> pa_detailsFilter q = [\<lparr> df_name = ''Color'', df_values = [''Red'', ''Blue''] \<rparr>]"
proof -
  let ?req = "example_request ''/inventory'' [(''details'', ''Color:Red,Blue;Make;Year:'')]"
  let ?q = "pipeline_of ?req ''/inventory'' []"
  have l: "snd (GET example_env ?req) = [FindOrdering, Aggregate ?q]"
    by (rule example_log)
  then have m: "Aggregate ?q \<in> set (snd (GET example_env ?req))"
    by simp
  have p: "or_default (get_param ?req ''details'') [] = ''Color:Red,Blue;Make;Year:''"
    by (simp add: get_param_def example_request_def)
  have s: "js_split CHR '';'' ''Color:Red,Blue;Make;Year:'' = [''Color:Red,Blue'', ''Make'', ''Year:'']"
    by simp
  have h: "has_values ''Color:Red,Blue''" "\<not> has_values ''Make''" "\<not> has_values ''Year:''"
    by (simp_all add: has_values_def value_segment_def)
  from GET_detail_filter_discards_empty_value_lists [of example_env ?req] m
  have "pa_detailsFilter ?q
          = map parse_detail
              (filter has_values (js_split CHR '';'' (or_default (get_param ?req ''details'') [])))"
    by blast
  then have "pa_detailsFilter ?q = [\<lparr> df_name = ''Color'', df_values = [''Red'', ''Blue''] \<rparr>]"
    unfolding p s by (simp add: h parse_detail_def name_segment_def value_segment_def)
  with l show ?thesis by blast
qed

section \<open>Properties of the sort stage\<close>

lemma map_of_obj_set: "map_of (obj_set kvs k v) = (map_of kvs)(k \<mapsto> v)"
  by (induction kvs) (auto simp: fun_eq_iff)

lemma map_of_sort_step:
  "map_of (sort_step st e) =
     (case stage_key (fst e) of None \<Rightarrow> map_of st | Some k \<Rightarrow> (map_of st)(k \<mapsto> snd e))"
  by (auto simp: sort_step_def stage_key_def map_of_obj_set split: option.splits)

lemma foldl_sort_step_other:
  "\<forall>e \<in> set es. stage_key (fst e) \<noteq> Some k \<Longrightarrow>
   map_of (foldl sort_step st es) k = map_of st k"
  by (induction es arbitrary: st) (auto simp: map_of_sort_step split: option.splits)

lemma foldl_sort_step_last:
  assumes "stage_key (fst e) = Some k" and "\<forall>e' \<in> set es2. stage_key (fst e') \<noteq> Some k"
  shows "map_of (foldl sort_step st (es1 @ e # es2)) k = Some (snd e)"
  using assms by (simp add: foldl_sort_step_other map_of_sort_step)

lemma foldl_sort_step_none:
  "\<forall>e \<in> set es. stage_key (fst e) = None \<Longrightarrow> foldl sort_step st es = st"
  by (induction es arbitrary: st) (auto simp: sort_step_def stage_key_def split: option.splits)

lemma stage_key_own:
  "map_of sortFieldMap name = Some field \<Longrightarrow> stage_key name = Some field"
  by (auto simp: stage_key_def sortFieldMap_get_def sortFieldMap_def split: if_splits)

lemma sortStage_of_last_entry:
  assumes "p \<noteq> []"
    and "js_split CHR '','' p = before @ entry # after"
    and "map_of sortFieldMap (name_segment entry) = Some field"
    and "\<forall>e \<in> set after. stage_key (name_segment e) \<noteq> Some field"
  shows "map_of (sortStage_of (Some p)) field
           = Some (if direction_token entry = Some ''asc'' then 1 else - 1)"
proof -
  have key: "stage_key (fst (parse_sort entry)) = Some field"
    using assms(3) by (simp add: parse_sort_def stage_key_own)
  have rest: "\<forall>e' \<in> set (map parse_sort after). stage_key (fst e') \<noteq> Some field"
    using assms(4) by (simp add: parse_sort_def)
  have split: "sortByFilter p = map parse_sort before @ parse_sort entry # map parse_sort after"
    using assms(2) by (simp add: sortByFilter_def)
  have stage: "map_of (foldl sort_step [] (sortByFilter p)) field = Some (snd (parse_sort entry))"
    unfolding split by (rule foldl_sort_step_last [OF key rest])
  then have ne: "foldl sort_step [] (sortByFilter p) \<noteq> []"
    by auto
  have "sortStage_of (Some p) = foldl sort_step [] (sortByFilter p)"
    using assms(1) ne by (simp add: sortStage_of_def Let_def)
  with stage show ?thesis
    by (simp add: parse_sort_def)
qed

text \<open>
  C10. In every aggregation the handler runs, the sort stage holds, for a field of
  \<open>sortFieldMap\<close>, the direction of the last \<open>sortBy\<close> entry that names it: \<open>1\<close> when
  the entry's direction token is exactly \<open>asc\<close>, and \<open>-1\<close> for every other token
  (\<open>desc\<close>, a misspelled token) and for a missing \<open>:direction\<close> segment. A request
  that passes the connection, the referer and the category test and whose ordering
  read succeeds does run an aggregation.
\<close>

theorem GET_sort_direction_descending_unless_asc:
  "(\<forall>q. Aggregate q \<in> set (snd (GET env req))
         \<and> get_param req ''sortBy'' = Some p \<and> p \<noteq> []
         \<and> js_split CHR '','' p = before @ entry # after
         \<and> map_of sortFieldMap (name_segment entry) = Some field
         \<and> (\<forall>e \<in> set after. stage_key (name_segment e) \<noteq> Some field)
         \<longrightarrow> map_of (pa_sortStage q) field
               = Some (if direction_token entry = Some ''asc'' then 1 else - 1)
             \<and> (direction_token entry \<noteq> Some ''asc'' \<longrightarrow> map_of (pa_sortStage q) field = Some (- 1)))
   \<and> (connect_ok env
        \<and> referer_pathname (referer req) = Inr url_pathname
        \<and> \<not> unknown_category (titleMap_keys env) (strip_trailing_slash url_pathname)
        \<and> findOrdering env = Inr ord
        \<longrightarrow> (\<exists>q. snd (GET env req) = [FindOrdering, Aggregate q]))"
proof (intro conjI allI impI)
  fix q
  assume a: "Aggregate q \<in> set (snd (GET env req))
         \<and> get_param req ''sortBy'' = Some p \<and> p \<noteq> []
         \<and> js_split CHR '','' p = before @ entry # after
         \<and> map_of sortFieldMap (name_segment entry) = Some field
         \<and> (\<forall>e \<in> set after. stage_key (name_segment e) \<noteq> Some field)"
  then have "Aggregate q \<in> set (snd (GET env req))" by simp
  from GET_aggregate_args [OF this] obtain pathname ids
    where q: "q = pipeline_of req pathname ids" by blast
  have s: "pa_sortStage q = sortStage_of (Some p)"
    using a by (simp add: q pipeline_of_def)
  from a have "map_of (sortStage_of (Some p)) field
                 = Some (if direction_token entry = Some ''asc'' then 1 else - 1)"
    by (intro sortStage_of_last_entry) auto
  then show r: "map_of (pa_sortStage q) field
                  = Some (if direction_token entry = Some ''asc'' then 1 else - 1)"
    by (simp add: s)
  assume "direction_token entry \<noteq> Some ''asc''"
  with r show "map_of (pa_sortStage q) field = Some (- 1)"
    by simp
next
  assume "connect_ok env
        \<and> referer_pathname (referer req) = Inr url_pathname
        \<and> \<not> unknown_category (titleMap_keys env) (strip_trailing_slash url_pathname)
        \<and> findOrdering env = Inr ord"
  then show "\<exists>q. snd (GET env req) = [FindOrdering, Aggregate q]"
    using GET_runs_query [of env req url_pathname ord] by blast
qed

theorem GET_sort_direction_descending_unless_asc_witness:
  "\<exists>q. snd (GET example_env
               (example_request ''/inventory'' [(''sortBy'', ''price:asc,year:desc,mileage:ASC,size'')]))
          = [FindOrdering, Aggregate q]
        \<and> map_of (pa_sortStage q) ''numericPrice'' = Some 1
        \<and> map_of (pa_sortStage q) ''numericYear'' = Some (- 1)
        \<and> map_of (pa_sortStage q) ''numericMileage'' = Some (- 1)
        \<and> map_of (pa_sortStage q) ''numericSize'' = Some (- 1)"
proof -
  let ?p = "''price:asc,year:desc,mileage:ASC,size''"
  let ?req = "example_request ''/inventory'' [(''sortBy'', ?p)]"
  let ?q = "pipeline_of ?req ''/inventory'' []"
  have l: "snd (GET example_env ?req) = [FindOrdering, Aggregate ?q]"
    by (rule example_log)
  then have m: "Aggregate ?q \<in> set (snd (GET example_env ?req))"
    by simp
  have g: "get_param ?req ''sortBy'' = Some ?p"
    by (simp add: get_param_def example_request_def)
  have s: "js_split CHR '','' ?p = [''price:asc'', ''year:desc'', ''mileage:ASC'', ''size'']"
    by simp
  have d: "direction_token ''price:asc'' = Some ''asc''"
          "direction_token ''year:desc'' = Some ''desc''"
          "direction_token ''mileage:ASC'' = Some ''ASC''"
          "direction_token ''size'' = None"
    by (simp_all add: direction_token_def)
  have n: "name_segment ''price:asc'' = ''price''"
          "name_segment ''year:desc'' = ''year''"
          "name_segment ''mileage:ASC'' = ''mileage''"
          "name_segment ''size'' = ''size''"
    by (simp_all add: name_segment_def)
  have k: "stage_key ''price'' = Some ''numericPrice''"
          "stage_key ''year'' = Some ''numericYear''"
          "stage_key ''mileage'' = Some ''numericMileage''"
          "stage_key ''size'' = Some ''numericSize''"
    by (simp_all add: stage_key_def sortFieldMap_get_def sortFieldMap_def)
  have f: "map_of sortFieldMap ''price'' = Some ''numericPrice''"
          "map_of sortFieldMap ''year'' = Some ''numericYear''"
          "map_of sortFieldMap ''mileage'' = Some ''numericMileage''"
          "map_of sortFieldMap ''size'' = Some ''numericSize''"
    by (simp_all add: sortFieldMap_def)
  note t = GET_sort_direction_descending_unless_asc [where env = example_env and req = ?req and p = ?p]
  from t [where entry = "''price:asc''" and before = "[]"
            and after = "[''year:desc'', ''mileage:ASC'', ''size'']" and field = "''numericPrice''"]
  have c: "map_of (pa_sortStage ?q) ''numericPrice'' = Some 1"
    using m g by (simp add: s d n k f)
  from t [where entry = "''year:desc''" and before = "[''price:asc'']"
            and after = "[''mileage:ASC'', ''size'']" and field = "''numericYear''"]
  have y: "map_of (pa_sortStage ?q) ''numericYear'' = Some (- 1)"
    using m g by (simp add: s d n k f)
  from t [where entry = "''mileage:ASC''" and before = "[''price:asc'', ''year:desc'']"
            and after = "[''size'']" and field = "''numericMileage''"]
  have i: "map_of (pa_sortStage ?q) ''numericMileage'' = Some (- 1)"
    using m g by (simp add: s d n k f)
  from t [where entry = "''size''" and before = "[''price:asc'', ''year:desc'', ''mileage:ASC'']"
            and after = "[]" and field = "''numericSize''"]
  have z: "map_of (pa_sortStage ?q) ''numericSize'' = Some (- 1)"
    using m g by (simp add: s d n k f)
  from l c y i z show ?thesis by blast
qed

text \<open>
  C4. A \<open>sortBy\<close> field that is not a key of \<open>sortFieldMap\<close> should be dropped, and the
  sort should default to descending creation time when no field survives. The lookup
  \<open>sortFieldMap[name]\<close> also finds the members inherited from \<open>Object.prototype\<close>:
  for \<open>sortBy=constructor:asc\<close> the sort stage gets the key
  \<open>function Object() { [native code] }\<close> with direction \<open>1\<close>, and the default is not
  applied.
\<close>

theorem sortBy_constructor_not_dropped:
  "sortStage_of (Some ''constructor:asc'') = [(''function Object() { [native code] }'', 1)]
   \<and> sortStage_of (Some ''constructor:asc'') \<noteq> default_stage"
  by (simp add: sortStage_of_def sortByFilter_def parse_sort_def name_segment_def
        direction_token_def sort_step_def sortFieldMap_get_def sortFieldMap_def
        object_prototype_def default_stage_def)

text \<open>
  Field names that \<open>sortFieldMap\<close> neither owns nor inherits are dropped, and the default
  applies when \<open>sortBy\<close> names only such fields.
\<close>

lemma sortBy_unknown_fields_dropped:
  assumes "\<forall>e \<in> set (js_split CHR '','' p). sortFieldMap_get (name_segment e) = None"
  shows "sortStage_of (Some p) = default_stage"
proof -
  have "\<forall>e \<in> set (sortByFilter p). stage_key (fst e) = None"
    using assms by (auto simp: sortByFilter_def parse_sort_def stage_key_def)
  then have "foldl sort_step [] (sortByFilter p) = []"
    by (rule foldl_sort_step_none)
  then show ?thesis
    by (simp add: sortStage_of_def Let_def)
qed

section \<open>Properties of the GET handler\<close>

lemma includes_inventory_iff:
  "category_of pathname = ''inventory'' \<longleftrightarrow> js_includes pathname ''inventory''"
proof
  assume c: "category_of pathname = ''inventory''"
  show "js_includes pathname ''inventory''"
  proof (rule ccontr)
    assume n: "\<not> js_includes pathname ''inventory''"
    with c have s: "strip_leading_slash pathname = ''inventory''"
      by (simp add: category_of_def)
    then have "pathname = ''inventory'' \<or> pathname = ''/inventory''"
      by (cases pathname) (auto simp: strip_leading_slash_def split: if_splits)
    then have "js_includes pathname ''inventory''"
      by auto
    with n show False by simp
  qed
next
  assume "js_includes pathname ''inventory''"
  then show "category_of pathname = ''inventory''"
    by (simp add: category_of_def)
qed

lemma status_server_error [simp]: "status (server_error :: 'c response) = 500"
  by (simp add: server_error_def)

lemma status_bad_request [simp]: "status (bad_request p l :: 'c response) = 400"
  by (simp add: bad_request_def)

lemma status_ok_response [simp]: "status (ok_response req r) = 200"
  by (simp add: ok_response_def)

text \<open>
  C5. Once the connection is up and the referer is a URL (or absent), the handler
  answers 400 exactly when the category derived from the referring path is not
  \<open>inventory\<close> and the path (trailing slash removed) is not a key of \<open>titleMap\<close>. A
  rejected request makes no call on the document store. Any other request goes on to
  the store: it reads the ordering record and, when that read succeeds, runs the
  aggregation with the derived category (\<open>inventory\<close> stands for all categories).
\<close>

theorem GET_rejects_exactly_unknown_category:
  assumes "connect_ok env" and "referer_pathname (referer req) = Inr url_pathname"
  shows "(status (fst (GET env req)) = 400 \<longleftrightarrow>
            category_of (strip_trailing_slash url_pathname) \<noteq> ''inventory''
            \<and> strip_trailing_slash url_pathname \<notin> set (titleMap_keys env))
         \<and> (status (fst (GET env req)) = 400 \<longrightarrow> snd (GET env req) = [])
         \<and> (status (fst (GET env req)) \<noteq> 400 \<longrightarrow>
               (\<exists>ops. snd (GET env req) = FindOrdering # ops)
               \<and> (\<forall>ord. findOrdering env = Inr ord \<longrightarrow>
                     snd (GET env req) =
                       [FindOrdering,
                        Aggregate (pipeline_of req (strip_trailing_slash url_pathname) (ordering_ids ord))]
                     \<and> pa_pathname (pipeline_of req (strip_trailing_slash url_pathname) (ordering_ids ord))
                         = category_of (strip_trailing_slash url_pathname)))"
  using assms
  by (auto simp: GET_def Let_def unknown_category_def includes_inventory_iff
        pipeline_of_def split: sum.splits)

theorem GET_rejects_exactly_unknown_category_witness:
  "status (fst (GET example_env (example_request ''/trucks/'' []))) = 400
   \<and> snd (GET example_env (example_request ''/trucks/'' [])) = []
   \<and> status (fst (GET example_env (example_request ''/suv/'' []))) \<noteq> 400
   \<and> (\<exists>q. snd (GET example_env (example_request ''/suv/'' [])) = [FindOrdering, Aggregate q]
            \<and> pa_pathname q = ''suv'')"
proof -
  have c: "connect_ok example_env"
    by (simp add: example_env_def)
  have o: "findOrdering example_env = Inr None"
    by (simp add: example_env_def)
  have r1: "referer_pathname (referer (example_request ''/trucks/'' [])) = Inr ''/trucks/''"
    by (simp add: example_request_def)
  have r2: "referer_pathname (referer (example_request ''/suv/'' [])) = Inr ''/suv/''"
    by (simp add: example_request_def)
  have k1: "category_of (strip_trailing_slash ''/trucks/'') \<noteq> ''inventory''
            \<and> strip_trailing_slash ''/trucks/'' \<notin> set (titleMap_keys example_env)"
    by (simp add: category_of_def strip_trailing_slash_def strip_leading_slash_def example_env_def)
  have k2: "strip_trailing_slash ''/suv/'' \<in> set (titleMap_keys example_env)
            \<and> category_of (strip_trailing_slash ''/suv/'') = ''suv''"
    by (simp add: category_of_def strip_trailing_slash_def strip_leading_slash_def example_env_def)
  from GET_rejects_exactly_unknown_category [OF c r1] k1
  have a: "status (fst (GET example_env (example_request ''/trucks/'' []))) = 400
           \<and> snd (GET example_env (example_request ''/trucks/'' [])) = []"
    by blast
  from GET_rejects_exactly_unknown_category [OF c r2] k2 o
  have b: "status (fst (GET example_env (example_request ''/suv/'' []))) \<noteq> 400
           \<and> (\<exists>q. snd (GET example_env (example_request ''/suv/'' [])) = [FindOrdering, Aggregate q]
                    \<and> pa_pathname q = ''suv'')"
    by auto
  from a b show ?thesis by blast
qed

lemma js_sub_one:
  assumes "finite_val x = Some (of_int p)" and "\<bar>p - 1\<bar> \<le> 2 ^ 53"
  shows "js_sub x (Fin 1) = Fin (of_int (p - 1))"
proof (cases "p = 1")
  case True
  with assms(1) show ?thesis
    by (cases x) (auto simp: js_sub_def)
next
  case False
  then have r: "round64 (of_int (p - 1)) = Fin (of_int (p - 1))"
    using assms(2) by (intro round64_of_int) auto
  have ne: "(of_int p :: rat) - 1 \<noteq> 0"
  proof
    assume "(of_int p :: rat) - 1 = 0"
    then have "(of_int p :: rat) = of_int 1" by simp
    then have "p = 1" by (simp only: of_int_eq_iff)
    with False show False by simp
  qed
  have "js_sub x (Fin 1) = round64 (of_int p - 1)"
    using assms(1) ne by (cases x) (auto simp: js_sub_def)
  with r show ?thesis by simp
qed

lemma js_mul_integers:
  assumes "finite_val y = Some (of_int l)" and "\<bar>k * l\<bar> \<le> 2 ^ 53"
  shows "finite_val (js_mul (Fin (of_int k)) y) = Some (of_int (k * l))"
proof (cases "k * l = 0")
  case True
  then have "(of_int (k * l) :: rat) = 0"
    by simp
  then have "(of_int k :: rat) * of_int l = 0"
    by simp
  then have "js_mul (Fin (of_int k)) y = zero_of (is_neg (Fin (of_int k)) \<noteq> is_neg y)"
    using assms(1) by (cases y) (auto simp: js_mul_def fin_signed_def)
  with True show ?thesis
    by (simp add: zero_of_def)
next
  case False
  then have r: "round64 (of_int (k * l)) = Fin (of_int (k * l))"
    using assms(2) by (intro round64_of_int) auto
  have ne: "(of_int k :: rat) * of_int l \<noteq> 0"
  proof
    assume "(of_int k :: rat) * of_int l = 0"
    then have "(of_int (k * l) :: rat) = of_int 0" by simp
    then have "k * l = 0" by (simp only: of_int_eq_iff)
    with False show False by simp
  qed
  have "js_mul (Fin (of_int k)) y = round64 (of_int k * of_int l)"
    using assms(1) ne by (cases y) (auto simp: js_mul_def fin_signed_def)
  with r show ?thesis by simp
qed

lemma skip_exact:
  assumes "finite_val x = Some (of_int p)" and "finite_val y = Some (of_int l)"
    and "\<bar>p - 1\<bar> \<le> 2 ^ 53" and "\<bar>(p - 1) * l\<bar> \<le> 2 ^ 53"
  shows "finite_val (js_mul (js_sub x (Fin 1)) y) = Some (of_int ((p - 1) * l))"
  unfolding js_sub_one [OF assms(1) assms(3)]
  by (rule js_mul_integers [OF assms(2) assms(4)])

text \<open>
  C8. In every aggregation the handler runs, the page size is the parsed \<open>limit\<close>
  parameter (default 24), unchanged, and the skip count is \<open>(page - 1) * limit\<close>,
  computed with JavaScript's \<open>-\<close> and \<open>*\<close> from the parsed \<open>page\<close> parameter
  (default 1) and that limit. When page and limit are integers and neither \<open>page - 1\<close>
  nor the product exceeds \<open>2^53\<close> in magnitude, the skip count is exactly the integer
  \<open>(page - 1) * limit\<close>. A request that passes the connection, the referer and the
  category test and whose ordering read succeeds does run an aggregation.
\<close>

theorem GET_skip_from_page_and_limit:
  "(\<forall>q. Aggregate q \<in> set (snd (GET env req)) \<longrightarrow>
         pa_limit q = parseInt (or_default (get_param req ''limit'') ''24'')
         \<and> pa_skip q
             = js_mul (js_sub (parseInt (or_default (get_param req ''page'') ''1'')) (Fin 1))
                 (pa_limit q)
         \<and> (\<forall>p l. finite_val (parseInt (or_default (get_param req ''page'') ''1'')) = Some (of_int p)
                  \<and> finite_val (pa_limit q) = Some (of_int l)
                  \<and> \<bar>p - 1\<bar> \<le> 2 ^ 53 \<and> \<bar>(p - 1) * l\<bar> \<le> 2 ^ 53
                  \<longrightarrow> finite_val (pa_skip q) = Some (of_int ((p - 1) * l))))
   \<and> (connect_ok env
        \<and> referer_pathname (referer req) = Inr url_pathname
        \<and> \<not> unknown_category (titleMap_keys env) (strip_trailing_slash url_pathname)
        \<and> findOrdering env = Inr ord
        \<longrightarrow> (\<exists>q. snd (GET env req) = [FindOrdering, Aggregate q]))"
proof (intro conjI allI impI)
  fix q
  assume "Aggregate q \<in> set (snd (GET env req))"
  from GET_aggregate_args [OF this] obtain pathname ids
    where q: "q = pipeline_of req pathname ids" by blast
  show l: "pa_limit q = parseInt (or_default (get_param req ''limit'') ''24'')"
    by (simp add: q pipeline_of_def limit_of_def)
  show s: "pa_skip q
             = js_mul (js_sub (parseInt (or_default (get_param req ''page'') ''1'')) (Fin 1))
                 (pa_limit q)"
    by (simp add: q pipeline_of_def limit_of_def page_of_def)
  fix p l
  assume "finite_val (parseInt (or_default (get_param req ''page'') ''1'')) = Some (of_int p)
          \<and> finite_val (pa_limit q) = Some (of_int l)
          \<and> \<bar>p - 1\<bar> \<le> 2 ^ 53 \<and> \<bar>(p - 1) * l\<bar> \<le> 2 ^ 53"
  then show "finite_val (pa_skip q) = Some (of_int ((p - 1) * l))"
    unfolding s by (intro skip_exact) auto
next
  assume "connect_ok env
        \<and> referer_pathname (referer req) = Inr url_pathname
        \<and> \<not> unknown_category (titleMap_keys env) (strip_trailing_slash url_pathname)
        \<and> findOrdering env = Inr ord"
  then show "\<exists>q. snd (GET env req) = [FindOrdering, Aggregate q]"
    using GET_runs_query [of env req url_pathname ord] by blast
qed

theorem GET_skip_from_page_and_limit_witness:
  "\<exists>q. snd (GET example_env (example_request ''/inventory'' [(''page'', ''3''), (''limit'', ''10'')]))
          = [FindOrdering, Aggregate q]
        \<and> pa_limit q = Fin 10
        \<and> finite_val (pa_skip q) = Some 20"
proof -
  let ?req = "example_request ''/inventory'' [(''page'', ''3''), (''limit'', ''10'')]"
  let ?q = "pipeline_of ?req ''/inventory'' []"
  have l: "snd (GET example_env ?req) = [FindOrdering, Aggregate ?q]"
    by (rule example_log)
  then have m: "Aggregate ?q \<in> set (snd (GET example_env ?req))"
    by simp
  have pg: "parseInt (or_default (get_param ?req ''page'') ''1'') = Fin (of_int 3)"
    by (simp add: get_param_def example_request_def js_eval)
  have lm: "parseInt (or_default (get_param ?req ''limit'') ''24'') = Fin (of_int 10)"
    by (simp add: get_param_def example_request_def js_eval)
  from GET_skip_from_page_and_limit [of example_env ?req] m
  have a: "pa_limit ?q = parseInt (or_default (get_param ?req ''limit'') ''24'')"
    and b: "\<And>p l. finite_val (parseInt (or_default (get_param ?req ''page'') ''1'')) = Some (of_int p)
                  \<and> finite_val (pa_limit ?q) = Some (of_int l)
                  \<and> \<bar>p - 1\<bar> \<le> 2 ^ 53 \<and> \<bar>(p - 1) * l\<bar> \<le> 2 ^ 53
                  \<Longrightarrow> finite_val (pa_skip ?q) = Some (of_int ((p - 1) * l))"
    by blast+
  have "finite_val (pa_skip ?q) = Some (of_int ((3 - 1) * 10))"
    by (rule b) (simp add: a pg lm)
  then have "finite_val (pa_skip ?q) = Some 20"
    by simp
  with l a lm show ?thesis
    by auto
qed





lemma totalPages_in_range:
  fixes l :: int and t :: nat
  assumes "finite_val y = Some (of_int l)" and "l \<noteq> 0" and "\<bar>l\<bar> \<le> 2 ^ 53" and "t < 2 ^ 53"
  shows "finite_val (js_ceil (js_div (number_of_count t) y))
           = Some (of_int \<lceil>of_nat t / of_int l :: rat\<rceil>)"
proof -
  have L: "(of_int l :: rat) \<noteq> 0" using assms(2) by simp
  have y: "y = Fin (of_int l)"
    using assms(1) L by (cases y) auto
  have n: "number_of_count t = Fin (of_nat t)"
    using assms(4) by (intro number_of_count_exact) simp
  show ?thesis
  proof (cases "t = 0")
    case True
    then show ?thesis
      using L by (simp add: y js_div_def number_of_count_def fin_signed_def zero_of_def)
  next
    case False
    then have tpos: "0 < t" by simp
    from ceiling_round64_quotient [OF tpos assms(4) assms(2) assms(3)] obtain v
      where v: "round64 (of_nat t / of_int l) = Fin v"
        and c: "\<lceil>v\<rceil> = \<lceil>of_nat t / of_int l :: rat\<rceil>" by blast
    have "(of_nat t :: rat) \<noteq> 0" using False by simp
    then have "js_div (number_of_count t) y = Fin v"
      using L by (simp add: y n js_div_def fin_signed_def v)
    then show ?thesis
      by (simp add: c)
  qed
qed

text \<open>
  For a 200 response, the reported \<open>totalItems\<close> is the count the aggregation returned
  and, when the limit is a nonzero integer of magnitude at most \<open>2^53\<close> and the count is
  below \<open>2^53\<close>, the reported \<open>totalPages\<close> is the integer ceiling of count over limit.
\<close>

lemma GET_totalPages_when_limit_in_range:
  assumes "connect_ok env"
    and "referer_pathname (referer req) = Inr url_pathname"
    and "\<not> unknown_category (titleMap_keys env) (strip_trailing_slash url_pathname)"
    and "findOrdering env = Inr ord"
    and "aggregate env (pipeline_of req (strip_trailing_slash url_pathname) (ordering_ids ord)) = Inr rs"
    and "finite_val (limit_of req) = Some (of_int l)" and "l \<noteq> 0" and "\<bar>l\<bar> \<le> 2 ^ 53"
    and "totalCars (first_result rs) < 2 ^ 53"
  shows "\<exists>pg. fst (GET env req) = \<lparr> status = 200, body = Page (cars (first_result rs)) pg \<rparr>
              \<and> totalItems pg = Fin (of_nat (totalCars (first_result rs)))
              \<and> limit pg = limit_of req
              \<and> finite_val (totalPages pg)
                  = Some (of_int \<lceil>of_nat (totalCars (first_result rs)) / of_int l :: rat\<rceil>)"
proof -
  have g: "fst (GET env req) = ok_response req (first_result rs)"
    using assms(1-5) by (simp add: GET_def Let_def)
  have n: "number_of_count (totalCars (first_result rs)) = Fin (of_nat (totalCars (first_result rs)))"
    using assms(9) by (intro number_of_count_exact) simp
  show ?thesis
    unfolding g ok_response_def
    using totalPages_in_range [OF assms(6) assms(7) assms(8) assms(9)]
    by (simp add: n)
qed

text \<open>
  C1. Every 200 response should report \<open>totalPages = ceil(totalItems / limit)\<close>. The
  200 path divides by the parsed limit as it is: for \<open>limit=0\<close> and five matching
  listings the response is 200 with \<open>totalPages\<close> infinite, and for \<open>limit=abc\<close> it is
  200 with \<open>totalPages\<close> \<open>NaN\<close>, neither of them a number of pages. The 400 path of
  the same handler replaces such a limit by 10 (\<open>limit || 10\<close>).
\<close>

theorem GET_limit_zero_totalPages_not_a_number_of_pages:
  "fst (GET example_env (example_request ''/inventory'' [(''limit'', ''0'')]))
     = \<lparr> status = 200,
         body = Page [1, 2]
           \<lparr> currentPage = Fin 1, totalPages = PInf, limit = Fin 0, totalItems = Fin 5,
             pg_priceRange = Some \<lparr> pr_min = 100, pr_max = 900 \<rparr> \<rparr> \<rparr>
   \<and> fst (GET example_env (example_request ''/inventory'' [(''limit'', ''abc'')]))
     = \<lparr> status = 200,
         body = Page [1, 2]
           \<lparr> currentPage = Fin 1, totalPages = NaN, limit = NaN, totalItems = Fin 5,
             pg_priceRange = Some \<lparr> pr_min = 100, pr_max = 900 \<rparr> \<rparr> \<rparr>
   \<and> fst (GET example_env (example_request ''/trucks'' [(''limit'', ''0'')]))
     = \<lparr> status = 400,
         body = Page []
           \<lparr> currentPage = Fin 1, totalPages = Fin 0, limit = Fin 10, totalItems = Fin 0,
             pg_priceRange = None \<rparr> \<rparr>"
proof -
  have n: "number_of_count 5 = Fin 5"
    by (simp add: number_of_count_exact)
  have a: "fst (GET example_env (example_request ''/inventory'' params))
           = ok_response (example_request ''/inventory'' params)
               \<lparr> cars = [1, 2], totalCars = 5, priceRange = \<lparr> pr_min = 100, pr_max = 900 \<rparr> \<rparr>"
    for params
    by (simp add: GET_def Let_def example_env_def example_request_def unknown_category_def
          strip_trailing_slash_def first_result_def)
  have z: "limit_of (example_request ''/inventory'' [(''limit'', ''0'')]) = Fin 0"
          "page_of (example_request ''/inventory'' [(''limit'', ''0'')]) = Fin 1"
    by (simp_all add: limit_of_def page_of_def get_param_def example_request_def js_eval)
  have b: "limit_of (example_request ''/inventory'' [(''limit'', ''abc'')]) = NaN"
          "page_of (example_request ''/inventory'' [(''limit'', ''abc'')]) = Fin 1"
    by (simp_all add: limit_of_def page_of_def get_param_def example_request_def js_eval)
  have t: "limit_of (example_request ''/trucks'' [(''limit'', ''0'')]) = Fin 0"
          "page_of (example_request ''/trucks'' [(''limit'', ''0'')]) = Fin 1"
    by (simp_all add: limit_of_def page_of_def get_param_def example_request_def js_eval)
  have r: "fst (GET example_env (example_request ''/trucks'' [(''limit'', ''0'')]))
           = bad_request (page_of (example_request ''/trucks'' [(''limit'', ''0'')]))
               (limit_of (example_request ''/trucks'' [(''limit'', ''0'')]))"
    by (simp add: GET_def Let_def example_env_def example_request_def unknown_category_def
          strip_trailing_slash_def)
  show ?thesis
    unfolding a r
    by (simp add: ok_response_def bad_request_def z b t n js_div_def inf_of_def num_or_def)
qed

lemma run_pipeline_empty:
  "filtered_set m q = [] \<Longrightarrow> run_pipeline m q = empty_result"
  by (simp add: run_pipeline_def empty_result_def price_range_of_def)

text \<open>
  C2. A request that reaches the aggregation and whose filtered set is empty is answered
  with status 200, an empty \<open>data\<close> array, \<open>totalItems\<close> zero and the price range
  \<open>{min: 0, max: 0}\<close>. The empty filtered set reaches the handler either as no result
  document at all (the handler's own fallback of lines 278-282) or as the result document
  the specified pipeline builds for an empty filtered set.
\<close>

theorem GET_empty_filtered_set:
  assumes "connect_ok env"
    and "referer_pathname (referer req) = Inr url_pathname"
    and "\<not> unknown_category (titleMap_keys env) (strip_trailing_slash url_pathname)"
    and "findOrdering env = Inr ord"
    and "q = pipeline_of req (strip_trailing_slash url_pathname) (ordering_ids ord)"
    and "aggregate env q = Inr []
         \<or> (aggregate env q = Inr [run_pipeline m q] \<and> filtered_set m q = [])"
  shows "status (fst (GET env req)) = 200
         \<and> (\<exists>pg. body (fst (GET env req)) = Page [] pg
                \<and> totalItems pg = Fin 0
                \<and> pg_priceRange pg = Some \<lparr> pr_min = 0, pr_max = 0 \<rparr>)"
proof -
  from assms(6) have "\<exists>rs. aggregate env q = Inr rs \<and> first_result rs = empty_result"
    by (auto simp: first_result_def run_pipeline_empty)
  then obtain rs where rs: "aggregate env q = Inr rs" "first_result rs = empty_result"
    by blast
  have "fst (GET env req) = ok_response req empty_result"
    using assms(1-4) rs unfolding assms(5)
    by (simp add: GET_def Let_def)
  then show ?thesis
    by (simp add: ok_response_def empty_result_def number_of_count_def fin_signed_def zero_of_def)
qed

theorem GET_empty_filtered_set_witness:
  "status (fst (GET example_store (example_request ''/suv'' [(''search'', ''zeppelin'')]))) = 200
   \<and> (\<exists>pg. body (fst (GET example_store (example_request ''/suv'' [(''search'', ''zeppelin'')])))
              = Page [] pg
          \<and> totalItems pg = Fin 0
          \<and> pg_priceRange pg = Some \<lparr> pr_min = 0, pr_max = 0 \<rparr>)"
proof -
  let ?req = "example_request ''/suv'' [(''search'', ''zeppelin'')]"
  let ?q = "pipeline_of ?req (strip_trailing_slash ''/suv'') (ordering_ids None)"
  have c: "connect_ok example_store"
    by (simp add: example_store_def example_env_def)
  have r: "referer_pathname (referer ?req) = Inr ''/suv''"
    by (simp add: example_request_def)
  have k: "\<not> unknown_category (titleMap_keys example_store) (strip_trailing_slash ''/suv'')"
    by (simp add: unknown_category_def strip_trailing_slash_def example_store_def example_env_def)
  have o: "findOrdering example_store = Inr None"
    by (simp add: example_store_def example_env_def)
  have s: "pa_search ?q = ''zeppelin''"
    by (simp add: pipeline_of_def get_param_def example_request_def)
  have e: "filtered_set example_model ?q = []"
    by (simp add: filtered_set_def example_model_def s)
  have a: "aggregate example_store ?q = Inr []
           \<or> (aggregate example_store ?q = Inr [run_pipeline example_model ?q]
               \<and> filtered_set example_model ?q = [])"
    using e by (simp add: example_store_def)
  from GET_empty_filtered_set [OF c r k o refl a] show ?thesis .
qed

section \<open>Properties of the POST handler\<close>

lemma all_written_iff:
  "all_written env fls \<longleftrightarrow> (\<forall>i < length fls. write_ok env i)"
  by (auto simp: all_written_def list_all_iff)

text \<open>
  C6. If the write of any one attachment fails, the ingestion aborts: the response has
  status 500 and carries no listing, and the collection is unchanged. A listing document
  enters the collection only when every write succeeded; the response is then 200 with
  that document, whose images are the uploaded files.
\<close>

theorem POST_aborts_when_a_write_fails:
  assumes "POST env w (Some formData) = (resp, w')"
  shows "((\<exists>i < length (image_files formData). \<not> write_ok env i) \<longrightarrow>
            post_status resp = 500 \<and> car resp = None
            \<and> car_collection w' = car_collection w)
         \<and> (car_collection w' \<noteq> car_collection w \<longrightarrow>
               (\<forall>i < length (image_files formData). write_ok env i)
               \<and> post_status resp = 200
               \<and> (\<exists>doc. car resp = Some doc
                      \<and> images doc = uploadedFiles env (image_files formData)
                      \<and> car_collection w' = car_collection w @ [doc]))"
proof (cases "all_written env (image_files formData)")
  case False
  with assms have "resp = post_failure \<and> car_collection w' = car_collection w"
    by (auto simp: POST_def Let_def split: if_splits)
  with False show ?thesis
    by (auto simp: post_failure_def all_written_iff)
next
  case True
  then have ok: "\<forall>i < length (image_files formData). write_ok env i"
    by (simp add: all_written_iff)
  from assms have
    "(resp = post_failure \<and> car_collection w' = car_collection w)
     \<or> (\<exists>doc. build_document env formData (uploadedFiles env (image_files formData)) = Inr doc
           \<and> resp = post_success doc \<and> car_collection w' = car_collection w @ [doc])"
    by (auto simp: POST_def Let_def split: if_splits sum.splits)
  moreover have "\<And>doc. build_document env formData imgs = Inr doc \<Longrightarrow> images doc = imgs" for imgs
    by (auto simp: build_document_def split: sum.splits)
  ultimately show ?thesis
    using ok by (auto simp: post_failure_def post_success_def)
qed

theorem POST_aborts_when_a_write_fails_witness:
  "post_status (fst (POST (example_post_env \<lparr> write_ok := (\<lambda>i. i \<noteq> 1) \<rparr>) example_world (Some example_form))) = 500
   \<and> car_collection (snd (POST (example_post_env \<lparr> write_ok := (\<lambda>i. i \<noteq> 1) \<rparr>) example_world (Some example_form)))
       = car_collection example_world"
proof -
  let ?env = "example_post_env \<lparr> write_ok := (\<lambda>i. i \<noteq> 1) \<rparr>"
  have f: "\<exists>i < length (image_files example_form). \<not> write_ok ?env i"
    by (rule exI [of _ 1]) (simp add: example_form_def)
  from POST_aborts_when_a_write_fails
         [of ?env example_world example_form
             "fst (POST ?env example_world (Some example_form))"
             "snd (POST ?env example_world (Some example_form))"] f
  show ?thesis by simp
qed

lemma example_fileName:
  "fileName_of example_post_env i \<lparr> file_name = ''a.png'', file_bytes = bs \<rparr> = ''1700000000000-a.png''"
  by (simp add: fileName_of_def example_post_env_def string_of_nat.simps digit_char_def)

text \<open>
  C7. A successful upload with \<open>n\<close> attachments should leave \<open>n\<close> files and \<open>n\<close> image
  entries. Two attachments named \<open>a.png\<close> whose callbacks read the same millisecond get
  the same file name: the response is 200 and the listing has two image entries, both
  \<open>1700000000000-a.png\<close>, but only one file is stored.
\<close>

theorem POST_same_name_attachments_share_one_file:
  "post_status (fst (POST example_post_env example_world (Some example_form))) = 200
   \<and> length (image_files example_form) = 2
   \<and> map images (car_collection (snd (POST example_post_env example_world (Some example_form))))
       = [[\<lparr> filename = ''1700000000000-a.png'', path = ''api/uploads/1700000000000-a.png'' \<rparr>,
           \<lparr> filename = ''1700000000000-a.png'', path = ''api/uploads/1700000000000-a.png'' \<rparr>]]
   \<and> map fst (files (snd (POST example_post_env example_world (Some example_form))))
       = [''/app/public/uploads/1700000000000-a.png'']"
proof -
  have len: "length (image_files example_form) = 2"
    by (simp add: example_form_def)
  have idx: "indexed (image_files example_form)
             = [(0, \<lparr> file_name = ''a.png'', file_bytes = [1, 2, 3] \<rparr>),
                (1, \<lparr> file_name = ''a.png'', file_bytes = [4, 5] \<rparr>)]"
    by (simp add: indexed_def example_form_def upt_rec)
  have fp: "filePath_of example_post_env (i, \<lparr> file_name = ''a.png'', file_bytes = bs \<rparr>)
            = ''/app/public/uploads/1700000000000-a.png''" for i bs
    by (simp add: filePath_of_def example_fileName uploadDir_def) (simp add: example_post_env_def)
  have ok: "write_ok example_post_env i" for i
    by (simp add: example_post_env_def)
  have rw: "request_writes example_post_env (image_files example_form)
            = [(''/app/public/uploads/1700000000000-a.png'', [[1, 2, 3], [4, 5]])]"
    by (simp add: request_writes_def idx record_write_def fp ok)
  have wr: "write_all example_post_env (image_files example_form) []
            = [(''/app/public/uploads/1700000000000-a.png'', [[1, 2, 3], [4, 5]])]"
    by (simp add: write_all_def rw)
  have aw: "all_written example_post_env (image_files example_form)"
    by (simp add: all_written_def example_post_env_def list_all_iff)
  have up: "uploadedFiles example_post_env (image_files example_form)
            = [\<lparr> filename = ''1700000000000-a.png'', path = ''api/uploads/1700000000000-a.png'' \<rparr>,
               \<lparr> filename = ''1700000000000-a.png'', path = ''api/uploads/1700000000000-a.png'' \<rparr>]"
    by (simp add: uploadedFiles_def idx uploaded_file_def example_fileName)
  define doc where "doc = \<lparr> title = ''Coupe'', price = ''$12,500'', extra = [],
      details = JArr [], features = JArr [], videos = JArr [],
      images = uploadedFiles example_post_env (image_files example_form),
      pages = JArr [], sellerNotes = JArr [] \<rparr>"
  have doc: "build_document example_post_env example_form
               (uploadedFiles example_post_env (image_files example_form)) = Inr doc"
    by (simp add: build_document_def parse_or_empty_def form_get_def example_form_def
          example_post_env_def example_decode_def doc_def)
  have im: "images doc = uploadedFiles example_post_env (image_files example_form)"
    by (simp add: doc_def)
  have sv: "save_ok example_post_env doc" "db_connect_ok example_post_env"
    by (simp_all add: example_post_env_def)
  have "POST example_post_env example_world (Some example_form)
        = (post_success doc,
           \<lparr> files = [(''/app/public/uploads/1700000000000-a.png'', [[1, 2, 3], [4, 5]])],
             upload_dir_exists = True, car_collection = [doc] \<rparr>)"
    by (simp add: POST_def Let_def aw doc sv wr example_world_def)
  then show ?thesis
    by (simp add: post_success_def im up len)
qed

text \<open>
  Without the three arrays the same submission fails: \<open>JSON.parse\<close> of an absent
  \<open>details\<close> field gives \<open>null\<close>, \<open>null.map\<close> throws, and nothing is saved.
\<close>

lemma POST_without_details_fails:
  "post_status (fst (POST example_post_env example_world
                       (Some (example_form \<lparr> text_fields := [(''title'', ''Coupe'')] \<rparr>)))) = 500
   \<and> car_collection (snd (POST example_post_env example_world
                       (Some (example_form \<lparr> text_fields := [(''title'', ''Coupe'')] \<rparr>)))) = []"
proof -
  let ?form = "example_form \<lparr> text_fields := [(''title'', ''Coupe'')] \<rparr>"
  have aw: "all_written example_post_env (image_files ?form)"
    by (simp add: all_written_def example_post_env_def list_all_iff)
  have b: "build_document example_post_env ?form imgs = Inl Thrown" for imgs
    by (simp add: build_document_def form_get_def example_post_env_def example_decode_def)
  have c: "db_connect_ok example_post_env"
    by (simp add: example_post_env_def)
  show ?thesis
    by (simp add: POST_def Let_def aw b c example_world_def post_failure_def)
qed

lemma indexed_nth:
  "i < length xs \<Longrightarrow> indexed xs ! i = (i, xs ! i)"
  by (simp add: indexed_def)

text \<open>
  What a successful upload does guarantee: one image entry per attachment, in order,
  named by the clock reading, a hyphen and the original name, with the path derived
  from that name.
\<close>

lemma POST_success_images:
  assumes "POST env w (Some formData) = (resp, w')" and "post_status resp = 200"
  shows "\<exists>doc. car resp = Some doc
           \<and> car_collection w' = car_collection w @ [doc]
           \<and> length (images doc) = length (image_files formData)
           \<and> (\<forall>i < length (image_files formData).
                 filename (images doc ! i)
                   = string_of_nat (now env i) @ ''-'' @ file_name (image_files formData ! i)
                 \<and> filename (images doc ! i) \<noteq> []
                 \<and> path (images doc ! i) = ''api/uploads/'' @ filename (images doc ! i))"
proof -
  have im: "\<And>doc imgs. build_document env formData imgs = Inr doc \<Longrightarrow> images doc = imgs"
    by (auto simp: build_document_def split: sum.splits)
  from assms obtain doc
    where d: "build_document env formData (uploadedFiles env (image_files formData)) = Inr doc"
      and r: "resp = post_success doc"
      and c: "car_collection w' = car_collection w @ [doc]"
    by (auto simp: POST_def Let_def post_failure_def split: if_splits sum.splits)
  have i: "images doc = uploadedFiles env (image_files formData)"
    by (rule im [OF d])
  have "length (indexed (image_files formData)) = length (image_files formData)"
    by (simp add: indexed_def)
  then show ?thesis
    by (simp add: r c i post_success_def uploadedFiles_def indexed_nth uploaded_file_def
          fileName_of_def)
qed

lemma map_fst_obj_set:
  "map fst (obj_set kvs k v) = (if k \<in> set (map fst kvs) then map fst kvs else map fst kvs @ [k])"
proof (induction kvs)
  case Nil
  show ?case by simp
next
  case (Cons kv kvs)
  obtain k' v' where kv: "kv = (k', v')" by (cases kv)
  show ?case
  proof (cases "k' = k")
    case True
    then show ?thesis by (simp add: kv)
  next
    case False
    then show ?thesis using Cons.IH by (simp add: kv)
  qed
qed

lemma keys_obj_set: "fst ` set (obj_set kvs k v) = insert k (fst ` set kvs)"
proof -
  have "set (map fst (obj_set kvs k v)) = insert k (set (map fst kvs))"
    unfolding map_fst_obj_set by auto
  then show ?thesis by simp
qed

lemma distinct_obj_set: "distinct (map fst kvs) \<Longrightarrow> distinct (map fst (obj_set kvs k v))"
  unfolding map_fst_obj_set by auto

lemma record_write_keys:
  "fst ` set (record_write env written e)
     = (if write_ok env (fst e) then insert (filePath_of env e) (fst ` set written)
        else fst ` set written)"
  by (simp add: record_write_def keys_obj_set)

lemma request_entries_keys:
  assumes "\<forall>e \<in> set es. write_ok env (fst e)"
  shows "fst ` set (foldl (record_write env) written es)
           = fst ` set written \<union> filePath_of env ` set es"
  using assms
  by (induction es arbitrary: written) (auto simp: record_write_keys)

lemma request_entries_distinct:
  "distinct (map fst written) \<Longrightarrow> distinct (map fst (foldl (record_write env) written es))"
  by (induction es arbitrary: written) (auto simp: record_write_def distinct_obj_set)

lemma stored_keys:
  "fst ` set (foldl (\<lambda>fs' w. obj_set fs' (fst w) (snd w)) fs ws) = fst ` set fs \<union> fst ` set ws"
  by (induction ws arbitrary: fs) (auto simp: keys_obj_set)

lemma stored_distinct:
  "distinct (map fst fs) \<Longrightarrow> distinct (map fst (foldl (\<lambda>fs' w. obj_set fs' (fst w) (snd w)) fs ws))"
  by (induction ws arbitrary: fs) (auto simp: distinct_obj_set)

text \<open>
  When the joined paths of the attachments are pairwise different, an upload into an
  empty directory stores one file per attachment.
\<close>

lemma POST_files_when_names_differ:
  assumes "all_written env fls"
    and "distinct (map (filePath_of env) (indexed fls))"
  shows "length (write_all env fls []) = length fls"
proof -
  have ok: "\<forall>e \<in> set (indexed fls). write_ok env (fst e)"
    using assms(1) by (auto simp: all_written_def list_all_iff indexed_def dest: set_zip_leftD)
  have d: "distinct (map fst (write_all env fls []))"
    unfolding write_all_def by (rule stored_distinct) simp
  have "length (write_all env fls []) = card (fst ` set (write_all env fls []))"
    using d by (metis distinct_card length_map set_map)
  also have "\<dots> = card (filePath_of env ` set (indexed fls))"
    unfolding write_all_def request_writes_def
    by (simp add: stored_keys request_entries_keys [OF ok])
  also have "\<dots> = length (indexed fls)"
    using assms(2) by (metis distinct_card length_map set_map)
  finally show ?thesis
    by (simp add: indexed_def)
qed

end
